theory Spec2Isabelle
  imports Main "HOL-Library.Sublist" "HOL-Library.Multiset"
begin

section \<open>Python values used by \<^verbatim>\<open>each.py\<close>\<close>

text \<open>
  A Python \<^verbatim>\<open>str\<close> is a sequence of Unicode code points; it is modelled as the list of
  its code points, so that the line boundaries and white space beyond ASCII that
  \<^verbatim>\<open>str.splitlines\<close> and \<^verbatim>\<open>str.strip\<close> recognise are part of the model.
  \<open>S\<close> turns an ASCII literal into such a string.
\<close>

type_synonym pystr = "nat list"

definition S :: "string \<Rightarrow> pystr" where
  "S cs = map of_char cs"

text \<open>The exit codes of the module (lines 73--78).\<close>

definition EXIT_OK :: int where "EXIT_OK = 0"
definition EXIT_USAGE :: int where "EXIT_USAGE = 64"
definition EXIT_NO_PLACEHOLDER :: int where "EXIT_NO_PLACEHOLDER = 65"
definition EXIT_BAD_ENV :: int where "EXIT_BAD_ENV = 66"
definition EXIT_NEEDS_NO_STDIN_FOR_PAR :: int where "EXIT_NEEDS_NO_STDIN_FOR_PAR = 67"
definition EXIT_CHILD_FAILED :: int where "EXIT_CHILD_FAILED = 70"

section \<open>The library functions the tokenizer calls\<close>

subsection \<open>\<^verbatim>\<open>str.strip()\<close>\<close>

text \<open>
  \<^verbatim>\<open>str.strip()\<close> without argument removes leading and trailing white space, that is the
  code points for which \<^verbatim>\<open>str.isspace\<close> holds: U+0009..U+000D, U+001C..U+001F, U+0020,
  U+0085, U+00A0, U+1680, U+2000..U+200A, U+2028, U+2029, U+202F, U+205F and U+3000.
\<close>

definition isspace :: "nat \<Rightarrow> bool" where
  "isspace c \<longleftrightarrow>
     (9 \<le> c \<and> c \<le> 13) \<or> (28 \<le> c \<and> c \<le> 32) \<or> c = 133 \<or> c = 160 \<or> c = 5760 \<or>
     (8192 \<le> c \<and> c \<le> 8202) \<or> c = 8232 \<or> c = 8233 \<or> c = 8239 \<or> c = 8287 \<or> c = 12288"

definition str_strip :: "pystr \<Rightarrow> pystr" where
  "str_strip s = rev (dropWhile isspace (rev (dropWhile isspace s)))"

subsection \<open>\<^verbatim>\<open>str.split(sep)\<close> for a one-character separator\<close>

text \<open>
  \<^verbatim>\<open>text.split("\x00")\<close>: the text is cut at every occurrence of the separator; the piece
  being read is \<open>cur\<close>. The result always has one piece more than the text has
  separators (the empty text gives one empty piece).
\<close>

fun split_char :: "nat \<Rightarrow> pystr \<Rightarrow> pystr \<Rightarrow> pystr list" where
  "split_char sep cur [] = [cur]"
| "split_char sep cur (c # cs) =
     (if c = sep then cur # split_char sep [] cs else split_char sep (cur @ [c]) cs)"

definition str_split :: "pystr \<Rightarrow> nat \<Rightarrow> pystr list" where
  "str_split text sep = split_char sep [] text"

subsection \<open>\<^verbatim>\<open>str.splitlines()\<close>\<close>

text \<open>
  The line boundaries of \<^verbatim>\<open>str.splitlines\<close>: LF, VT, FF, CR, FS, GS, RS, NEL (U+0085),
  LS (U+2028) and PS (U+2029); CR directly followed by LF is one boundary. A line is
  produced at every boundary, and at the end of the text when characters were read since
  the last boundary: a text that ends with a boundary has no empty last line, and the
  empty text has no line.
\<close>

definition LF :: nat where "LF = 10"
definition CR :: nat where "CR = 13"

definition islinebreak :: "nat \<Rightarrow> bool" where
  "islinebreak c \<longleftrightarrow>
     (10 \<le> c \<and> c \<le> 13) \<or> (28 \<le> c \<and> c \<le> 30) \<or> c = 133 \<or> c = 8232 \<or> c = 8233"

fun splitlines_from :: "pystr \<Rightarrow> pystr \<Rightarrow> pystr list" where
  "splitlines_from cur [] = (if cur = [] then [] else [cur])"
| "splitlines_from cur [c] =
     (if islinebreak c then [cur] else splitlines_from (cur @ [c]) [])"
| "splitlines_from cur (c # d # cs) =
     (if islinebreak c then
        (if c = CR \<and> d = LF then cur # splitlines_from [] cs
         else cur # splitlines_from [] (d # cs))
      else splitlines_from (cur @ [c]) (d # cs))"

definition splitlines :: "pystr \<Rightarrow> pystr list" where
  "splitlines text = splitlines_from [] text"

subsection \<open>\<^verbatim>\<open>re.Pattern.split\<close> for an alternation of escaped literals\<close>

text \<open>
  A compiled pattern \<^verbatim>\<open>re.escape(d1)|...|re.escape(dn)\<close> is the ordered list of its literal
  alternatives. The engine of \<^verbatim>\<open>re\<close> is a backtracking matcher:
  \<^item> at one position the alternatives are tried from left to right and the first that
    matches is taken (\<open>first_match\<close>);
  \<^item> a search tries the start position, then every later one up to the end of the text
    (\<open>re_search\<close>, which returns the text skipped, the delimiter matched and the rest);
  \<^item> \<^verbatim>\<open>split\<close> searches again from the end of each match; directly after an empty match
    the engine's \<^verbatim>\<open>must_advance\<close> flag refuses an empty match at that same position for
    the first attempt of the next search (\<open>adv\<close>); the text after the last match is the
    last piece.
\<close>

datatype pattern = Alternation "pystr list"

fun first_match :: "pystr list \<Rightarrow> bool \<Rightarrow> pystr \<Rightarrow> pystr option" where
  "first_match [] adv s = None"
| "first_match (d # ds) adv s =
     (if prefix d s \<and> \<not> (adv \<and> d = []) then Some d else first_match ds adv s)"

fun re_search :: "pystr list \<Rightarrow> bool \<Rightarrow> pystr \<Rightarrow> (pystr \<times> pystr \<times> pystr) option" where
  "re_search ds adv [] =
     (case first_match ds adv [] of
        Some d \<Rightarrow> Some ([], d, [])
      | None \<Rightarrow> None)"
| "re_search ds adv (c # cs) =
     (case first_match ds adv (c # cs) of
        Some d \<Rightarrow> Some ([], d, drop (length d) (c # cs))
      | None \<Rightarrow>
          (case re_search ds False cs of
             Some (u, d, r) \<Rightarrow> Some (c # u, d, r)
           | None \<Rightarrow> None))"

lemma first_match_prefix: "first_match ds adv s = Some d \<Longrightarrow> prefix d s \<and> \<not> (adv \<and> d = [])"
  by (induction ds) (auto split: if_splits)

lemma re_search_length:
  "re_search ds adv s = Some (u, d, r) \<Longrightarrow>
     length r \<le> length s \<and> (d = [] \<and> length r = length s \<longrightarrow> \<not> adv) \<and>
     (d \<noteq> [] \<longrightarrow> length r < length s)"
proof (induction ds adv s arbitrary: u d r rule: re_search.induct)
  case (1 ds adv)
  then show ?case
    by (auto split: option.splits dest: first_match_prefix)
next
  case (2 ds adv c cs)
  show ?case
  proof (cases "first_match ds adv (c # cs)")
    case (Some d')
    with 2(2) have eq: "u = []" "d = d'" "r = drop (length d') (c # cs)" by auto
    from Some have "prefix d' (c # cs)" "\<not> (adv \<and> d' = [])"
      by (auto dest: first_match_prefix)
    with eq show ?thesis by (cases d') auto
  next
    case None
    with 2(2) obtain u' where "re_search ds False cs = Some (u', d, r)"
      by (auto split: option.splits)
    from 2(1)[OF None this] show ?thesis by auto
  qed
qed

function re_split_from :: "pystr list \<Rightarrow> bool \<Rightarrow> pystr \<Rightarrow> pystr list" where
  "re_split_from ds adv s =
     (case re_search ds adv s of
        None \<Rightarrow> [s]
      | Some (u, d, r) \<Rightarrow> u # re_split_from ds (d = []) r)"
  by pat_completeness auto
termination
proof (relation "measure (\<lambda>(ds, adv, s). 2 * length s + (if adv then 0 else 1))", goal_cases)
  case 1
  show ?case by simp
next
  case (2 ds adv s x2 u y d r)
  then have "re_search ds adv s = Some (u, d, r)" by simp
  from re_search_length[OF this] show ?case by (cases "d = []") auto
qed

declare re_split_from.simps [simp del]

fun pattern_split :: "pattern \<Rightarrow> pystr \<Rightarrow> pystr list" where
  "pattern_split (Alternation ds) text = re_split_from ds False text"

section \<open>The tokenizer\<close>

text \<open>\<^verbatim>\<open>compile_delimiters_regex\<close> (lines 93--111): the union of the escaped delimiters.\<close>

definition compile_delimiters_regex :: "pystr list \<Rightarrow> pattern" where
  "compile_delimiters_regex delimiters = Alternation delimiters"

text \<open>
  \<^verbatim>\<open>tokenize_input\<close> (lines 134--183). \<open>delimiters\<close> is \<^verbatim>\<open>None\<close> or a list; an empty list is
  as false as \<^verbatim>\<open>None\<close>. \<open>raw_parts\<close> is the choice of the splitting strategy (lines
  165--172), \<open>tokenize_loop\<close> the loop over the parts (lines 174--181) with the list
  \<open>tokens\<close> it appends to.
\<close>

fun raw_parts :: "pystr \<Rightarrow> pystr list option \<Rightarrow> bool \<Rightarrow> pystr list" where
  "raw_parts text delimiters True = str_split text 0"
| "raw_parts text (Some (d # ds)) False = pattern_split (compile_delimiters_regex (d # ds)) text"
| "raw_parts text (Some []) False = splitlines text"
| "raw_parts text None False = splitlines text"

fun tokenize_loop :: "bool \<Rightarrow> bool \<Rightarrow> pystr list \<Rightarrow> pystr list \<Rightarrow> pystr list" where
  "tokenize_loop keep_empty strip_ws [] tokens = tokens"
| "tokenize_loop keep_empty strip_ws (part # parts) tokens =
     (let token = (if strip_ws then str_strip part else part) in
      if token = [] \<and> \<not> keep_empty then tokenize_loop keep_empty strip_ws parts tokens
      else tokenize_loop keep_empty strip_ws parts (tokens @ [token]))"

definition tokenize_input :: "pystr \<Rightarrow> pystr list option \<Rightarrow> bool \<Rightarrow> bool \<Rightarrow> bool \<Rightarrow> pystr list" where
  "tokenize_input text delimiters use_null keep_empty strip_ws =
     tokenize_loop keep_empty strip_ws (raw_parts text delimiters use_null) []"

section \<open>The command builder\<close>

subsection \<open>\<^verbatim>\<open>in\<close>, \<^verbatim>\<open>str.replace\<close> and \<^verbatim>\<open>shlex.quote\<close>\<close>

text \<open>\<^verbatim>\<open>sub in s\<close>: \<open>sub\<close> starts at some position of \<open>s\<close>; the empty string is in every string.\<close>

fun str_contains :: "pystr \<Rightarrow> pystr \<Rightarrow> bool" where
  "str_contains sub [] = (sub = [])"
| "str_contains sub (c # cs) = (prefix sub (c # cs) \<or> str_contains sub cs)"

text \<open>
  \<^verbatim>\<open>s.replace(old, new)\<close> scans \<open>s\<close> from the left: where \<open>old\<close> starts it is replaced by
  \<open>new\<close> and the scan goes on behind it, so the occurrences replaced do not overlap and
  \<open>new\<close> is not scanned again. For the empty \<open>old\<close>, \<open>new\<close> is put before every character
  and at the end.
\<close>

function replace_scan :: "pystr \<Rightarrow> pystr \<Rightarrow> pystr \<Rightarrow> pystr" where
  "replace_scan old new [] = []"
| "replace_scan old new (c # cs) =
     (if old \<noteq> [] \<and> prefix old (c # cs)
      then new @ replace_scan old new (drop (length old) (c # cs))
      else c # replace_scan old new cs)"
  by pat_completeness auto
termination
  by (relation "measure (\<lambda>(old, new, s). length s)") auto

definition str_replace :: "pystr \<Rightarrow> pystr \<Rightarrow> pystr \<Rightarrow> pystr" where
  "str_replace s old new =
     (if old = [] then new @ concat (map (\<lambda>c. c # new) s) else replace_scan old new s)"

text \<open>
  \<^verbatim>\<open>shlex.quote\<close>: the empty string becomes two apostrophes; a string of safe characters
  only (ASCII letters, digits and \<^verbatim>\<open>_ @ % + = : , . / -\<close>) is returned as it is; any other
  string is put between apostrophes, each apostrophe inside it written as
  apostrophe, quote, apostrophe, quote, apostrophe.
\<close>

definition APOSTROPHE :: nat where "APOSTROPHE = 39"
definition QUOTE :: nat where "QUOTE = 34"

definition is_safe :: "nat \<Rightarrow> bool" where
  "is_safe c \<longleftrightarrow>
     (48 \<le> c \<and> c \<le> 57) \<or> (65 \<le> c \<and> c \<le> 90) \<or> (97 \<le> c \<and> c \<le> 122) \<or> c = 95 \<or>
     c = 64 \<or> c = 37 \<or> c = 43 \<or> c = 61 \<or> c = 58 \<or> c = 44 \<or> c = 46 \<or> c = 47 \<or> c = 45"

definition shlex_quote :: "pystr \<Rightarrow> pystr" where
  "shlex_quote s =
     (if s = [] then [APOSTROPHE, APOSTROPHE]
      else if list_all is_safe s then s
      else [APOSTROPHE] @
           str_replace s [APOSTROPHE] [APOSTROPHE, QUOTE, APOSTROPHE, QUOTE, APOSTROPHE] @
           [APOSTROPHE])"

subsection \<open>\<^verbatim>\<open>build_command\<close> (lines 220--247)\<close>

definition build_command :: "pystr \<Rightarrow> pystr \<Rightarrow> pystr \<Rightarrow> bool \<Rightarrow> pystr" where
  "build_command template placeholder argument quote =
     (let arg = (if quote then shlex_quote argument else argument)
      in str_replace template placeholder arg)"

section \<open>Effects, exceptions and the world outside the program\<close>

text \<open>
  What the program does to the outside is recorded as a list of events, in the order of
  the calls:
  \<^item> \<open>Stderr\<close>: a call of \<^verbatim>\<open>eprint\<close> (the messages of \<^verbatim>\<open>parse_args\<close>, and the trace line
    \<^verbatim>\<open>+ command\<close> of \<^verbatim>\<open>run_command\<close>);
  \<^item> \<open>ReadStdin\<close>: \<^verbatim>\<open>sys.stdin.buffer.read()\<close>;
  \<^item> \<open>Stdout\<close>: \<^verbatim>\<open>print(cmd_str)\<close> of the dry run;
  \<^item> \<open>Build\<close>: a call of \<^verbatim>\<open>build_command\<close> with its result (it has no outside effect; it
    is recorded so that which commands are built can be stated);
  \<^item> \<open>Subprocess\<close>: the call of \<^verbatim>\<open>subprocess.run\<close> in \<^verbatim>\<open>run_command\<close>;
  \<^item> \<open>Submit\<close>: \<^verbatim>\<open>pool.submit(run_command, ...)\<close> with the arguments of the call. Like
    \<open>Build\<close> it is a step of the main thread with no outside effect. The pool runs every
    submitted call once, in a worker thread (the \<^verbatim>\<open>with\<close> block of \<^verbatim>\<open>main\<close> waits for all
    of them and cancels none): the events of these calls of \<^verbatim>\<open>run_command\<close> stand in the
    list behind the steps of the main thread, interleaved as the world schedules the
    workers.
\<close>

datatype message =
    NoPlaceholder pystr
  | BadEnv pystr
  | NeedsNoStdin
  | Trace pystr

record invocation =
  command_str :: pystr
  shell_path :: "pystr option"
  pass_stdin :: bool
  child_env :: "(pystr \<rightharpoonup> pystr) option"

datatype event =
    Stderr message
  | ReadStdin
  | Stdout pystr
  | Build pystr
  | Subprocess invocation
  | Submit invocation bool

text \<open>
  An exception is a value; a call that may raise returns \<open>exn + 'a\<close>. \<open>SystemExit\<close> carries
  the exit code, \<open>ValueError\<close> the environment item \<^verbatim>\<open>apply_environment\<close> refuses.
\<close>

datatype exn =
    SystemExit int
  | ValueError pystr
  | UnicodeDecodeError
  | LookupError
  | OSError

type_synonym 'a io = "event list \<times> (exn + 'a)"

definition io_bind :: "'a io \<Rightarrow> ('a \<Rightarrow> 'b io) \<Rightarrow> 'b io" where
  "io_bind m f =
     (case m of
        (evs, Inl e) \<Rightarrow> (evs, Inl e)
      | (evs, Inr x) \<Rightarrow> (case f x of (evs', r) \<Rightarrow> (evs @ evs', r)))"

text \<open>
  The world is what the program reads from outside:
  \<^item> \<open>stdin_bytes\<close>, the bytes on standard input, and \<open>decode\<close>, the codec
    \<^verbatim>\<open>data.decode(encoding, errors=errors)\<close>, which may raise;
  \<^item> \<open>os_environ\<close>, the environment of the process;
  \<^item> \<open>child\<close>: what the \<open>n\<close>-th call of \<^verbatim>\<open>subprocess.run\<close> (counted from 0) does with its
    arguments: it raises (no shell at \<^verbatim>\<open>executable\<close>, a NUL in the command) or gives the
    return code of the child, any integer;
  \<^item> \<open>schedule\<close>: how the worker threads of the pool take turns; each entry names the
    submitted call (counted from 0) whose next event happens;
  \<^item> \<open>finish_order\<close>: the outcomes of the submitted calls in the order in which the calls
    finish, given the outcomes in submission order: the completion order;
  \<^item> \<open>finished_early\<close>: how many of the calls have finished when \<^verbatim>\<open>main\<close> calls
    \<^verbatim>\<open>as_completed\<close>, and \<open>early_yield\<close>: the order in which \<^verbatim>\<open>as_completed\<close> hands out
    those (it keeps them in a set).
  Every call finishes once and is handed out once, so the theorems about the parallel
  path assume that \<open>finish_order\<close> and \<open>early_yield\<close> permute their arguments.
\<close>

record world =
  stdin_bytes :: "nat list"
  decode :: "nat list \<Rightarrow> pystr \<Rightarrow> pystr \<Rightarrow> exn + pystr"
  os_environ :: "pystr \<rightharpoonup> pystr"
  child :: "nat \<Rightarrow> invocation \<Rightarrow> exn + int"
  schedule :: "nat list"
  finish_order :: "(exn + int) list \<Rightarrow> (exn + int) list"
  finished_early :: nat
  early_yield :: "(exn + int) list \<Rightarrow> (exn + int) list"

text \<open>
  The namespace \<^verbatim>\<open>parser.parse_args(argv)\<close> returns (lines 323--441); \<open>null_opt\<close> is its
  attribute \<^verbatim>\<open>null\<close>. \<^verbatim>\<open>delimiter\<close> is \<^verbatim>\<open>None\<close> or the list of the \<^verbatim>\<open>-d\<close> options,
  \<^verbatim>\<open>max_procs\<close> any integer.
\<close>

record args =
  command :: pystr
  placeholder :: pystr
  delimiter :: "pystr list option"
  null_opt :: bool
  strip :: bool
  keep_empty :: bool
  encoding :: pystr
  errors :: pystr
  max_procs :: int
  no_stdin :: bool
  dry_run :: bool
  trace :: bool
  no_quote :: bool
  env :: "pystr list"
  shell :: "pystr option"

section \<open>Environment, runner and argument validation\<close>

text \<open>\<^verbatim>\<open>decode_stdin\<close> (lines 114--131).\<close>

definition decode_stdin :: "world \<Rightarrow> pystr \<Rightarrow> pystr \<Rightarrow> pystr io" where
  "decode_stdin w enc errs = ([ReadStdin], decode w (stdin_bytes w) enc errs)"

text \<open>
  \<^verbatim>\<open>apply_environment\<close> (lines 186--217). \<open>EQUALS\<close> is the character \<^verbatim>\<open>=\<close>;
  \<^verbatim>\<open>item.split("=", 1)\<close> cuts an item that has one at its first \<^verbatim>\<open>=\<close>.
\<close>

definition EQUALS :: nat where "EQUALS = 61"

fun environment_items :: "pystr list \<Rightarrow> (pystr \<rightharpoonup> pystr) \<Rightarrow> exn + (pystr \<rightharpoonup> pystr)" where
  "environment_items [] extra = Inr extra"
| "environment_items (item # items) extra =
     (if EQUALS \<notin> set item \<or> prefix [EQUALS] item then Inl (ValueError item)
      else
        let key = takeWhile (\<lambda>c. c \<noteq> EQUALS) item;
            val = tl (dropWhile (\<lambda>c. c \<noteq> EQUALS) item)
        in environment_items items (extra(key \<mapsto> val)))"

definition apply_environment :: "world \<Rightarrow> pystr list \<Rightarrow> exn + (pystr \<rightharpoonup> pystr)" where
  "apply_environment w env_kv =
     (case environment_items env_kv Map.empty of
        Inl e \<Rightarrow> Inl e
      | Inr extra \<Rightarrow> Inr (os_environ w ++ extra))"

text \<open>
  \<^verbatim>\<open>run_command\<close> (lines 250--300); \<open>n\<close> numbers the call: it counts the calls made before
  this one on the sequential path, the calls submitted before this one on the parallel
  path.
\<close>

definition run_command ::
  "world \<Rightarrow> nat \<Rightarrow> pystr \<Rightarrow> pystr option \<Rightarrow> bool \<Rightarrow> bool \<Rightarrow> (pystr \<rightharpoonup> pystr) option \<Rightarrow> int io" where
  "run_command w n cmd sh fwd tr envo =
     (let inv = \<lparr>command_str = cmd, shell_path = sh, pass_stdin = fwd, child_env = envo\<rparr>
      in ((if tr then [Stderr (Trace cmd)] else []) @ [Subprocess inv], child w n inv))"

text \<open>
  The checks of \<^verbatim>\<open>parse_args\<close> on the parsed namespace (lines 443--464): each one that
  fails prints its message and raises \<^verbatim>\<open>SystemExit\<close>.
\<close>

definition parse_args :: "world \<Rightarrow> args \<Rightarrow> args io" where
  "parse_args w a =
     (if \<not> str_contains (placeholder a) (command a)
      then ([Stderr (NoPlaceholder (placeholder a))], Inl (SystemExit EXIT_NO_PLACEHOLDER))
      else
        (case apply_environment w (env a) of
           Inl (ValueError item) \<Rightarrow> ([Stderr (BadEnv item)], Inl (SystemExit EXIT_BAD_ENV))
         | Inl e \<Rightarrow> ([], Inl e)
         | Inr merged \<Rightarrow>
             if max_procs a > 1 \<and> \<not> no_stdin a
             then ([Stderr NeedsNoStdin], Inl (SystemExit EXIT_NEEDS_NO_STDIN_FOR_PAR))
             else ([], Inr a)))"

section \<open>The orchestrator: \<^verbatim>\<open>main\<close> (lines 467--567)\<close>

text \<open>\<^verbatim>\<open>x or y\<close> on integers: \<open>x\<close> when it is true, that is non-zero, else \<open>y\<close>.\<close>

definition int_or :: "int \<Rightarrow> int \<Rightarrow> int" where
  "int_or x y = (if x \<noteq> 0 then x else y)"

text \<open>The dry run (lines 508--517).\<close>

fun dry_run_loop :: "args \<Rightarrow> pystr list \<Rightarrow> int io" where
  "dry_run_loop a [] = ([], Inr EXIT_OK)"
| "dry_run_loop a (tok # toks) =
     (let cmd_str = build_command (command a) (placeholder a) tok (\<not> no_quote a)
      in io_bind ([Build cmd_str, Stdout cmd_str], Inr ()) (\<lambda>_. dry_run_loop a toks))"

text \<open>
  The sequential path (lines 520--538); \<open>n\<close> is the number of commands run so far.
\<close>

fun sequential_loop :: "world \<Rightarrow> args \<Rightarrow> (pystr \<rightharpoonup> pystr) option \<Rightarrow> nat \<Rightarrow> pystr list \<Rightarrow> int io" where
  "sequential_loop w a envo n [] = ([], Inr EXIT_OK)"
| "sequential_loop w a envo n (tok # toks) =
     (let cmd_str = build_command (command a) (placeholder a) tok (\<not> no_quote a)
      in io_bind ([Build cmd_str], Inr ()) (\<lambda>_.
         io_bind (run_command w n cmd_str (shell a) (\<not> no_stdin a) (trace a) envo) (\<lambda>rc.
           if rc \<noteq> 0 then ([], Inr (int_or rc EXIT_CHILD_FAILED))
           else sequential_loop w a envo (Suc n) toks)))"

text \<open>
  The pool and \<^verbatim>\<open>concurrent.futures.as_completed\<close>.
  \<^item> \<open>interleave\<close> merges the events of the submitted calls, one queue per call: each
    entry of the schedule lets the named call do its next event; when the schedule ends,
    the calls that are left run one after the other. Every event of every call is in
    the result.
  \<^item> \<open>as_completed\<close> first yields the futures that have finished when it is called, in
    the order of the set it keeps them in, then the others as they finish.
\<close>

fun interleave :: "nat list \<Rightarrow> event list list \<Rightarrow> event list" where
  "interleave [] queues = concat queues"
| "interleave (i # picks) queues =
     (if i < length queues \<and> queues ! i \<noteq> []
      then hd (queues ! i) # interleave picks (queues[i := tl (queues ! i)])
      else interleave picks queues)"

definition as_completed :: "world \<Rightarrow> (exn + int) list \<Rightarrow> (exn + int) list" where
  "as_completed w futures =
     (let finished = finish_order w futures
      in early_yield w (take (finished_early w) finished) @ drop (finished_early w) finished)"

text \<open>
  The parallel path (lines 541--567). \<open>submit_loop\<close> builds and submits one call of
  \<^verbatim>\<open>run_command\<close> per token (lines 544--560) and returns the submitted calls in
  submission order, each with the events and the outcome it has when a worker runs it.
  \<open>collect_loop\<close> is the loop over \<^verbatim>\<open>as_completed\<close> (lines 562--565): \<^verbatim>\<open>fut.result()\<close> is
  the outcome of the call and raises what the call raised.
\<close>

fun submit_loop ::
  "world \<Rightarrow> args \<Rightarrow> (pystr \<rightharpoonup> pystr) option \<Rightarrow> nat \<Rightarrow> pystr list \<Rightarrow> int io list \<Rightarrow>
     event list \<times> int io list" where
  "submit_loop w a envo n [] futures = ([], futures)"
| "submit_loop w a envo n (tok # toks) futures =
     (let cmd_str = build_command (command a) (placeholder a) tok (\<not> no_quote a);
          inv = \<lparr>command_str = cmd_str, shell_path = shell a, pass_stdin = False,
                 child_env = envo\<rparr>
      in case submit_loop w a envo (Suc n) toks
                (futures @ [run_command w n cmd_str (shell a) False (trace a) envo]) of
           (evs, fs) \<Rightarrow> (Build cmd_str # Submit inv (trace a) # evs, fs))"

fun collect_loop :: "int \<Rightarrow> (exn + int) list \<Rightarrow> exn + int" where
  "collect_loop return_code [] = Inr return_code"
| "collect_loop return_code (Inl e # futs) = Inl e"
| "collect_loop return_code (Inr rc # futs) =
     (if rc \<noteq> 0 \<and> return_code = EXIT_OK
      then collect_loop (int_or rc EXIT_CHILD_FAILED) futs
      else collect_loop return_code futs)"

definition parallel_path :: "world \<Rightarrow> args \<Rightarrow> (pystr \<rightharpoonup> pystr) option \<Rightarrow> pystr list \<Rightarrow> int io" where
  "parallel_path w a envo tokens =
     (case submit_loop w a envo 0 tokens [] of
        (evs, futures) \<Rightarrow>
          (evs @ interleave (schedule w) (map fst futures),
           collect_loop EXIT_OK (as_completed w (map snd futures))))"

definition main :: "world \<Rightarrow> args \<Rightarrow> int io" where
  "main w argv =
     io_bind (parse_args w argv) (\<lambda>a.
     io_bind ([], if env a \<noteq> [] then map_sum id Some (apply_environment w (env a)) else Inr None)
       (\<lambda>envo.
     io_bind (decode_stdin w (encoding a) (errors a)) (\<lambda>text.
       let tokens = tokenize_input text (delimiter a) (null_opt a) (keep_empty a) (strip a) in
       if tokens = [] then ([], Inr EXIT_OK)
       else if dry_run a then dry_run_loop a tokens
       else if max_procs a \<le> 1 then sequential_loop w a envo 0 tokens
       else parallel_path w a envo tokens)))"

section \<open>Notions used to state the properties\<close>

text \<open>
  The value of the variable \<^verbatim>\<open>env\<close> of \<^verbatim>\<open>main\<close> (line 487) for arguments that passed
  \<^verbatim>\<open>parse_args\<close>, and the arguments with which the two execution paths call
  \<^verbatim>\<open>subprocess.run\<close> for a token.
\<close>

definition child_environment :: "world \<Rightarrow> args \<Rightarrow> (pystr \<rightharpoonup> pystr) option" where
  "child_environment w a =
     (if env a = [] then None
      else (case apply_environment w (env a) of Inr merged \<Rightarrow> Some merged | Inl e \<Rightarrow> None))"

definition token_command :: "args \<Rightarrow> pystr \<Rightarrow> pystr" where
  "token_command a tok = build_command (command a) (placeholder a) tok (\<not> no_quote a)"

definition sequential_invocation :: "world \<Rightarrow> args \<Rightarrow> pystr \<Rightarrow> invocation" where
  "sequential_invocation w a tok =
     \<lparr>command_str = token_command a tok, shell_path = shell a, pass_stdin = \<not> no_stdin a,
      child_env = child_environment w a\<rparr>"

definition parallel_invocation :: "world \<Rightarrow> args \<Rightarrow> pystr \<Rightarrow> invocation" where
  "parallel_invocation w a tok =
     \<lparr>command_str = token_command a tok, shell_path = shell a, pass_stdin = False,
      child_env = child_environment w a\<rparr>"

text \<open>
  The events of one token on the sequential path (the command is built, traced when
  \<^verbatim>\<open>--trace\<close> is on, and run) and on the parallel path (the command is built and
  submitted).
\<close>

definition sequential_events :: "world \<Rightarrow> args \<Rightarrow> pystr \<Rightarrow> event list" where
  "sequential_events w a tok =
     Build (token_command a tok) #
     (if trace a then [Stderr (Trace (token_command a tok))] else []) @
     [Subprocess (sequential_invocation w a tok)]"

definition parallel_events :: "world \<Rightarrow> args \<Rightarrow> pystr \<Rightarrow> event list" where
  "parallel_events w a tok =
     [Build (token_command a tok), Submit (parallel_invocation w a tok) (trace a)]"

text \<open>
  The events of the call of \<^verbatim>\<open>run_command\<close> a worker makes for a submitted invocation,
  the commands run in a list of events (the arguments of its calls of
  \<^verbatim>\<open>subprocess.run\<close>, in their order), and the first non-zero code of a list of return
  codes, 0 when there is none.
\<close>

definition worker_events :: "args \<Rightarrow> invocation \<Rightarrow> event list" where
  "worker_events a call =
     (if trace a then [Stderr (Trace (command_str call))] else []) @ [Subprocess call]"

fun ran :: "event list \<Rightarrow> invocation list" where
  "ran [] = []"
| "ran (Subprocess call # evs) = call # ran evs"
| "ran (e # evs) = ran evs"

definition first_nonzero :: "int list \<Rightarrow> int" where
  "first_nonzero codes = (case find (\<lambda>rc. rc \<noteq> 0) codes of None \<Rightarrow> 0 | Some rc \<Rightarrow> rc)"

text \<open>An environment item that \<^verbatim>\<open>apply_environment\<close> accepts.\<close>

definition valid_item :: "pystr \<Rightarrow> bool" where
  "valid_item item \<longleftrightarrow> EQUALS \<in> set item \<and> \<not> prefix [EQUALS] item"

text \<open>
  The word a POSIX shell reads from a string (Shell Command Language, sections 2.2 and
  2.3), for a string that is one word made of ordinary characters, of parts between
  apostrophes and of parts between double quotes; \<open>None\<close> for any other string (the empty
  string, which holds no word, a string with an open quotation, a string with a
  character that is special where it stands).
  \<^item> Outside quotations the characters \<^verbatim>\<open>| & ; < > ( ) $ ` \ " '\<close>, space, tab and newline
    must be quoted to stand for themselves, and \<^verbatim>\<open>* ? [ # ~\<close> are special in patterns,
    comments and tilde prefixes; every other character is ordinary.
  \<^item> Between apostrophes every character stands for itself, up to the next apostrophe.
  \<^item> Between double quotes every character but \<^verbatim>\<open>$\<close>, \<^verbatim>\<open>`\<close> and \<^verbatim>\<open>\\<close> stands for itself, up to
    the next double quote.
  \<open>word\<close> is the part of the word read so far.
\<close>

datatype quoting = Unquoted | Single | Double

definition is_special :: "nat \<Rightarrow> bool" where
  "is_special c \<longleftrightarrow>
     c = 124 \<or> c = 38 \<or> c = 59 \<or> c = 60 \<or> c = 62 \<or> c = 40 \<or> c = 41 \<or> c = 36 \<or> c = 96 \<or>
     c = 92 \<or> c = 34 \<or> c = 39 \<or> c = 32 \<or> c = 9 \<or> c = 10 \<or>
     c = 42 \<or> c = 63 \<or> c = 91 \<or> c = 35 \<or> c = 126"

fun sh_word_from :: "quoting \<Rightarrow> pystr \<Rightarrow> pystr \<Rightarrow> pystr option" where
  "sh_word_from Unquoted word [] = Some word"
| "sh_word_from Single word [] = None"
| "sh_word_from Double word [] = None"
| "sh_word_from Unquoted word (c # cs) =
     (if c = APOSTROPHE then sh_word_from Single word cs
      else if c = QUOTE then sh_word_from Double word cs
      else if is_special c then None
      else sh_word_from Unquoted (word @ [c]) cs)"
| "sh_word_from Single word (c # cs) =
     (if c = APOSTROPHE then sh_word_from Unquoted word cs
      else sh_word_from Single (word @ [c]) cs)"
| "sh_word_from Double word (c # cs) =
     (if c = QUOTE then sh_word_from Unquoted word cs
      else if c = 36 \<or> c = 96 \<or> c = 92 then None
      else sh_word_from Double (word @ [c]) cs)"

definition sh_word :: "pystr \<Rightarrow> pystr option" where
  "sh_word s = (if s = [] then None else sh_word_from Unquoted [] s)"

text \<open>
  A delimiter matches at the start of a text when it is a prefix of it; \<open>adv\<close> refuses
  the empty delimiter, as the engine does at the position of an empty match.
\<close>

definition matches_at :: "bool \<Rightarrow> pystr \<Rightarrow> pystr \<Rightarrow> bool" where
  "matches_at adv d s \<longleftrightarrow> prefix d s \<and> \<not> (adv \<and> d = [])"

text \<open>
  The specification's reading of the union match, leftmost-longest: a search stops at the
  leftmost position where a delimiter matches and takes the longest delimiter that
  matches there (the first listed among those of equal length).
\<close>

fun longest_match :: "pystr list \<Rightarrow> bool \<Rightarrow> pystr \<Rightarrow> pystr option" where
  "longest_match [] adv s = None"
| "longest_match (d # ds) adv s =
     (if matches_at adv d s then
        (case longest_match ds adv s of
           Some d' \<Rightarrow> if length d < length d' then Some d' else Some d
         | None \<Rightarrow> Some d)
      else longest_match ds adv s)"

fun leftmost_longest_search ::
  "pystr list \<Rightarrow> bool \<Rightarrow> pystr \<Rightarrow> (pystr \<times> pystr \<times> pystr) option" where
  "leftmost_longest_search ds adv [] =
     (case longest_match ds adv [] of
        Some d \<Rightarrow> Some ([], d, [])
      | None \<Rightarrow> None)"
| "leftmost_longest_search ds adv (c # cs) =
     (case longest_match ds adv (c # cs) of
        Some d \<Rightarrow> Some ([], d, drop (length d) (c # cs))
      | None \<Rightarrow>
          (case leftmost_longest_search ds False cs of
             Some (u, d, r) \<Rightarrow> Some (c # u, d, r)
           | None \<Rightarrow> None))"

text \<open>
  The specification's normal form of line endings: every \<^verbatim>\<open>\r\n\<close> and every other \<^verbatim>\<open>\r\<close>
  becomes \<^verbatim>\<open>\n\<close>.
\<close>

fun normalize_newlines :: "pystr \<Rightarrow> pystr" where
  "normalize_newlines [] = []"
| "normalize_newlines [c] = (if c = CR then [LF] else [c])"
| "normalize_newlines (c # d # cs) =
     (if c = CR \<and> d = LF then LF # normalize_newlines cs
      else if c = CR then LF # normalize_newlines (d # cs)
      else c # normalize_newlines (d # cs))"

text \<open>\<^verbatim>\<open>sep.join(xs)\<close>, the rejoining of tokens the specification speaks of.\<close>

fun str_join :: "pystr \<Rightarrow> pystr list \<Rightarrow> pystr" where
  "str_join sep [] = []"
| "str_join sep [x] = x"
| "str_join sep (x # y # ys) = x @ sep @ str_join sep (y # ys)"

text \<open>
  Concrete inputs: the namespace of \<^verbatim>\<open>each TEMPLATE\<close> with every option at its default, and
  a world whose standard input is ASCII text, whose codec succeeds, whose environment is
  empty, where the return code of a child is a function of its command, where the
  submitted calls run one after the other and finish in the reverse of the submission
  order, none of them before \<^verbatim>\<open>as_completed\<close> is called.
\<close>

definition example_args :: "pystr \<Rightarrow> args" where
  "example_args template =
     \<lparr>command = template, placeholder = S ''{}'', delimiter = None, null_opt = False,
      strip = False, keep_empty = False, encoding = S ''utf-8'', errors = S ''strict'',
      max_procs = 1, no_stdin = False, dry_run = False, trace = False, no_quote = False,
      env = [], shell = None\<rparr>"

definition example_world :: "pystr \<Rightarrow> (pystr \<Rightarrow> int) \<Rightarrow> world" where
  "example_world text rc_of =
     \<lparr>stdin_bytes = text, decode = (\<lambda>bytes enc errs. Inr bytes), os_environ = Map.empty,
      child = (\<lambda>n inv. Inr (rc_of (command_str inv))), schedule = [],
      finish_order = rev, finished_early = 0, early_yield = (\<lambda>futures. futures)\<rparr>"

text \<open>
  The examples of the specification: the tokens \<^verbatim>\<open>a\<close>, \<^verbatim>\<open>b\<close>, \<^verbatim>\<open>c\<close> on three lines for the
  template \<^verbatim>\<open>echo {}\<close>; in \<open>abc_world\<close> the command of \<^verbatim>\<open>b\<close> returns 2 and the others 0, in
  \<open>failing_world\<close> the three commands return 1, 2 and 3 and the workers run the third
  command first. \<open>parallel_args\<close> is \<^verbatim>\<open>each -P 3 --no-stdin 'echo {}'\<close>.
\<close>

definition abc_world :: world where
  "abc_world =
     example_world (S ''a\<newline>b\<newline>c\<newline>'') (\<lambda>cmd. if cmd = S ''echo b'' then 2 else 0)"

definition failing_world :: world where
  "failing_world =
     (example_world (S ''a\<newline>b\<newline>c\<newline>'')
        (\<lambda>cmd. if cmd = S ''echo a'' then 1 else if cmd = S ''echo b'' then 2 else 3))
     \<lparr>schedule := [2, 0]\<rparr>"

text \<open>
  In \<open>early_world\<close> the three commands return 1, 2 and 3 and finish in this order; the
  first two have finished when \<^verbatim>\<open>as_completed\<close> is called, which hands them out in the
  other order.
\<close>

definition early_world :: world where
  "early_world =
     (example_world (S ''a\<newline>b\<newline>c\<newline>'')
        (\<lambda>cmd. if cmd = S ''echo a'' then 1 else if cmd = S ''echo b'' then 2 else 3))
     \<lparr>finish_order := (\<lambda>futures. futures), finished_early := 2, early_yield := rev\<rparr>"

definition echo_args :: args where
  "echo_args = example_args (S ''echo {}'')"

definition parallel_args :: args where
  "parallel_args = (example_args (S ''echo {}'')) \<lparr>max_procs := 3, no_stdin := True\<rparr>"

section \<open>Properties of the tokenizer\<close>

lemma tokenize_loop_keep:
  "tokenize_loop True sw parts tokens =
     tokens @ map (\<lambda>part. if sw then str_strip part else part) parts"
  by (induction parts arbitrary: tokens) simp_all

lemma tokenize_loop_drop:
  "tokenize_loop False sw parts tokens =
     tokens @ filter (\<lambda>token. token \<noteq> []) (map (\<lambda>part. if sw then str_strip part else part) parts)"
  by (induction parts arbitrary: tokens) (simp_all add: Let_def)

text \<open>
  Claim C6. For every text and every splitting strategy: without \<^verbatim>\<open>keep_empty\<close> no token
  is the empty string, and the tokens are the non-empty ones among the (stripped, when
  stripping is on) raw pieces, in their order; with \<^verbatim>\<open>keep_empty\<close> there are exactly as
  many tokens as raw pieces, token \<open>i\<close> being raw piece \<open>i\<close> (stripped, when stripping is
  on).
\<close>

theorem tokenize_input_keep_empty:
  "[] \<notin> set (tokenize_input text delimiters use_null False sw) \<and>
   tokenize_input text delimiters use_null False sw =
     filter (\<lambda>token. token \<noteq> [])
       (map (\<lambda>part. if sw then str_strip part else part) (raw_parts text delimiters use_null)) \<and>
   length (tokenize_input text delimiters use_null True sw) =
     length (raw_parts text delimiters use_null) \<and>
   tokenize_input text delimiters use_null True sw =
     map (\<lambda>part. if sw then str_strip part else part) (raw_parts text delimiters use_null)"
  by (simp add: tokenize_input_def tokenize_loop_keep tokenize_loop_drop)

lemma splitlines_from_break:
  "islinebreak c \<Longrightarrow> c \<noteq> CR \<or> cs = [] \<or> hd cs \<noteq> LF \<Longrightarrow>
     splitlines_from cur (c # cs) = cur # splitlines_from [] cs"
  by (cases cs) auto

lemma splitlines_from_char:
  "\<not> islinebreak c \<Longrightarrow> splitlines_from cur (c # cs) = splitlines_from (cur @ [c]) cs"
  by (cases cs) auto

lemma islinebreak_LF_CR: "islinebreak LF" "islinebreak CR" "LF \<noteq> CR"
  by (simp_all add: islinebreak_def LF_def CR_def)

lemma splitlines_from_normalize:
  "splitlines_from cur (normalize_newlines s) = splitlines_from cur s"
proof (induction s arbitrary: cur rule: normalize_newlines.induct)
  case 1
  show ?case by simp
next
  case (2 c)
  show ?case by (simp add: islinebreak_LF_CR)
next
  case (3 c d cs)
  show ?case
  proof (cases "c = CR")
    case True
    show ?thesis
    proof (cases "d = LF")
      case dLF: True
      with True 3(1) show ?thesis
        by (simp add: splitlines_from_break islinebreak_LF_CR del: splitlines_from.simps)
           (simp add: islinebreak_LF_CR)
    next
      case False
      with True 3(2) show ?thesis
        by (simp add: splitlines_from_break islinebreak_LF_CR del: splitlines_from.simps)
    qed
  next
    case False
    with 3(3) show ?thesis
      by (cases "islinebreak c")
         (simp_all add: splitlines_from_break splitlines_from_char del: splitlines_from.simps)
  qed
qed

lemma normalize_newlines_replace:
  "normalize_newlines s = str_replace (str_replace s [CR, LF] [LF]) [CR] [LF]"
  by (induction s rule: normalize_newlines.induct)
     (simp_all add: str_replace_def CR_def LF_def)

text \<open>
  Claim C7. With no delimiter (\<^verbatim>\<open>None\<close>, or an empty list) and NUL mode off, a text
  tokenizes as the text with its line endings normalized to \<^verbatim>\<open>\n\<close> does, whatever
  \<^verbatim>\<open>keep_empty\<close> and \<^verbatim>\<open>strip_ws\<close> are. The normalized text is
  \<^verbatim>\<open>text.replace("\r\n", "\n").replace("\r", "\n")\<close>.
\<close>

theorem tokenize_input_line_endings:
  "tokenize_input (normalize_newlines text) None False ke sw =
     tokenize_input text None False ke sw \<and>
   tokenize_input (normalize_newlines text) (Some []) False ke sw =
     tokenize_input text (Some []) False ke sw \<and>
   normalize_newlines text = str_replace (str_replace text [CR, LF] [LF]) [CR] [LF]"
  by (simp add: tokenize_input_def splitlines_def splitlines_from_normalize
      normalize_newlines_replace [symmetric])

section \<open>Properties of the command builder\<close>

lemma str_contains_sublist: "str_contains sub s \<longleftrightarrow> sublist sub s"
  by (induction s) (auto simp: sublist_Cons_right)

lemma replace_scan_absent: "\<not> str_contains old s \<Longrightarrow> replace_scan old new s = s"
  by (induction old new s rule: replace_scan.induct) auto

lemma replace_scan_first:
  "old \<noteq> [] \<Longrightarrow> \<forall>k<length u. \<not> prefix old (drop k (u @ old @ r)) \<Longrightarrow>
     replace_scan old new (u @ old @ r) = u @ new @ replace_scan old new r"
proof (induction u)
  case Nil
  then show ?case by (cases old) simp_all
next
  case (Cons c u)
  from Cons.prems(2) have "\<not> prefix old (drop 0 ((c # u) @ old @ r))" by blast
  then have np: "\<not> prefix old (c # u @ old @ r)" by simp
  have "\<forall>k<length u. \<not> prefix old (drop k (u @ old @ r))"
  proof (intro allI impI)
    fix k assume "k < length u"
    then have "Suc k < length (c # u)" by simp
    with Cons.prems(2) have "\<not> prefix old (drop (Suc k) ((c # u) @ old @ r))" by blast
    then show "\<not> prefix old (drop k (u @ old @ r))" by simp
  qed
  with Cons.IH Cons.prems(1) np show ?case by simp
qed

lemma is_safe_ordinary: "is_safe c \<Longrightarrow> \<not> is_special c \<and> c \<noteq> APOSTROPHE \<and> c \<noteq> QUOTE"
  by (auto simp: is_safe_def is_special_def APOSTROPHE_def QUOTE_def)

lemma sh_word_from_safe:
  "list_all is_safe s \<Longrightarrow> sh_word_from Unquoted word s = Some (word @ s)"
  by (induction s arbitrary: word) (auto dest: is_safe_ordinary)

lemma sh_word_from_single:
  "sh_word_from Single word
     (replace_scan [APOSTROPHE] [APOSTROPHE, QUOTE, APOSTROPHE, QUOTE, APOSTROPHE] s @ [APOSTROPHE]) =
   Some (word @ s)"
proof (induction s arbitrary: word)
  case Nil
  show ?case by simp
next
  case (Cons c s)
  show ?case
  proof (cases "c = APOSTROPHE")
    case True
    with Cons [of "word @ [c]"] show ?thesis
      by (simp add: APOSTROPHE_def QUOTE_def)
  next
    case False
    with Cons [of "word @ [c]"] show ?thesis by simp
  qed
qed

lemma sh_word_shlex_quote: "sh_word (shlex_quote tok) = Some tok"
proof (cases "tok = []")
  case True
  then show ?thesis
    by (simp add: sh_word_def shlex_quote_def)
next
  case False
  show ?thesis
  proof (cases "list_all is_safe tok")
    case True
    with False sh_word_from_safe [of tok "[]"] show ?thesis
      by (simp add: sh_word_def shlex_quote_def)
  next
    case unsafe: False
    with False sh_word_from_single [of "[]" tok] show ?thesis
      by (simp add: sh_word_def shlex_quote_def str_replace_def)
  qed
qed

lemma replace_scan_no_char: "c \<notin> set s \<Longrightarrow> replace_scan [c] new s = s"
  by (induction s) auto

text \<open>
  Claim C5. With quoting on, \<^verbatim>\<open>build_command\<close> replaces every occurrence of the
  placeholder, from the left and without overlap, by \<^verbatim>\<open>shlex.quote\<close> of the token:
  \<^item> a template in which the placeholder does not occur is returned as it is;
  \<^item> behind the leftmost occurrence of a non-empty placeholder (\<open>u\<close> is the text before
    it) the result goes on with the quoted token and then with what the rest \<open>r\<close> of the
    template builds to: the token put in is not scanned, whatever it contains;
  \<^item> the empty placeholder occurs before every character and at the end, and the quoted
    token is put at each of these places;
  \<^item> the quoted token is a POSIX shell quotation of the token: a shell reads it as one
    word, and this word is the token, whatever characters the token has; a token with an
    unsafe character and no apostrophe is put between apostrophes as it is;
  \<^item> the quoted form of the empty token is two apostrophes.
\<close>

theorem build_command_replaces_every_occurrence:
  "(\<not> sublist p t \<longrightarrow> build_command t p tok True = t) \<and>
   (p \<noteq> [] \<and> (\<forall>k<length u. \<not> prefix p (drop k (u @ p @ r))) \<longrightarrow>
      build_command (u @ p @ r) p tok True = u @ shlex_quote tok @ build_command r p tok True) \<and>
   build_command t [] tok True = shlex_quote tok @ concat (map (\<lambda>c. c # shlex_quote tok) t) \<and>
   sh_word (shlex_quote tok) = Some tok \<and>
   (\<not> list_all is_safe tok \<and> APOSTROPHE \<notin> set tok \<longrightarrow>
      shlex_quote tok = [APOSTROPHE] @ tok @ [APOSTROPHE]) \<and>
   shlex_quote [] = [APOSTROPHE, APOSTROPHE] \<and>
   build_command t p [] True = str_replace t p [APOSTROPHE, APOSTROPHE]"
proof (intro conjI impI)
  assume "\<not> sublist p t"
  then have "\<not> str_contains p t" "p \<noteq> []"
    by (auto simp: str_contains_sublist)
  then show "build_command t p tok True = t"
    by (simp add: build_command_def str_replace_def replace_scan_absent)
next
  assume "p \<noteq> [] \<and> (\<forall>k<length u. \<not> prefix p (drop k (u @ p @ r)))"
  then show "build_command (u @ p @ r) p tok True =
      u @ shlex_quote tok @ build_command r p tok True"
    by (simp add: build_command_def str_replace_def replace_scan_first Let_def)
next
  show "sh_word (shlex_quote tok) = Some tok"
    by (rule sh_word_shlex_quote)
next
  assume "\<not> list_all is_safe tok \<and> APOSTROPHE \<notin> set tok"
  then show "shlex_quote tok = [APOSTROPHE] @ tok @ [APOSTROPHE]"
    by (auto simp: shlex_quote_def str_replace_def replace_scan_no_char)
qed (simp_all add: build_command_def str_replace_def shlex_quote_def)

theorem build_command_replaces_every_occurrence_witness:
  "\<not> sublist (S ''{}'') (S ''ls'') \<and>
   build_command (S ''ls'') (S ''{}'') (S ''{}'') True = S ''ls'' \<and>
   build_command (S ''echo {} {}'') (S ''{}'') (S ''{}'') True =
     S ''echo '' @ shlex_quote (S ''{}'') @ build_command (S '' {}'') (S ''{}'') (S ''{}'') True \<and>
   \<not> list_all is_safe (S ''{}'') \<and> APOSTROPHE \<notin> set (S ''{}'') \<and>
   shlex_quote (S ''{}'') = [APOSTROPHE] @ S ''{}'' @ [APOSTROPHE] \<and>
   sh_word ([APOSTROPHE] @ S ''{}'' @ [APOSTROPHE]) = Some (S ''{}'') \<and>
   build_command (S ''echo {} {}'') (S ''{}'') (S ''{}'') True =
     S ''echo '' @ [APOSTROPHE] @ S ''{}'' @ [APOSTROPHE] @ S '' '' @
     [APOSTROPHE] @ S ''{}'' @ [APOSTROPHE] \<and>
   shlex_quote (S ''a b'' @ [APOSTROPHE] @ S ''c'') =
     [APOSTROPHE] @ S ''a b'' @ [APOSTROPHE, QUOTE, APOSTROPHE, QUOTE, APOSTROPHE] @ S ''c'' @
     [APOSTROPHE] \<and>
   sh_word ([APOSTROPHE] @ S ''a b'' @ [APOSTROPHE, QUOTE, APOSTROPHE, QUOTE, APOSTROPHE] @
     S ''c'' @ [APOSTROPHE]) = Some (S ''a b'' @ [APOSTROPHE] @ S ''c'')"
proof -
  have absent: "\<not> sublist (S ''{}'') (S ''ls'')"
    by (simp add: str_contains_sublist [symmetric] S_def)
  have leftmost: "S ''{}'' \<noteq> [] \<and>
      (\<forall>k<length (S ''echo ''). \<not> prefix (S ''{}'') (drop k (S ''echo '' @ S ''{}'' @ S '' {}'')))"
    by (simp add: S_def All_less_Suc)
  have unsafe: "\<not> list_all is_safe (S ''{}'') \<and> APOSTROPHE \<notin> set (S ''{}'')"
    by (simp add: S_def is_safe_def APOSTROPHE_def)
  have split: "S ''echo {} {}'' = S ''echo '' @ S ''{}'' @ S '' {}''"
    by (simp add: S_def)
  note claim = build_command_replaces_every_occurrence
         [where p = "S ''{}''" and t = "S ''ls''" and tok = "S ''{}''" and u = "S ''echo ''"
            and r = "S '' {}''"]
  from claim unsafe have quoted: "shlex_quote (S ''{}'') = [APOSTROPHE] @ S ''{}'' @ [APOSTROPHE]"
    by blast
  from claim have word: "sh_word (shlex_quote (S ''{}'')) = Some (S ''{}'')"
    by blast
  from claim leftmost have first: "build_command (S ''echo '' @ S ''{}'' @ S '' {}'') (S ''{}'')
      (S ''{}'') True =
    S ''echo '' @ shlex_quote (S ''{}'') @ build_command (S '' {}'') (S ''{}'') (S ''{}'') True"
    by blast
  from claim absent have none: "build_command (S ''ls'') (S ''{}'') (S ''{}'') True = S ''ls''"
    by blast
  have rest: "build_command (S '' {}'') (S ''{}'') (S ''{}'') True =
      S '' '' @ shlex_quote (S ''{}'')"
    by (simp add: build_command_def str_replace_def S_def Let_def)
  have escaped: "shlex_quote (S ''a b'' @ [APOSTROPHE] @ S ''c'') =
      [APOSTROPHE] @ S ''a b'' @ [APOSTROPHE, QUOTE, APOSTROPHE, QUOTE, APOSTROPHE] @ S ''c'' @
      [APOSTROPHE]"
    by (simp add: shlex_quote_def str_replace_def is_safe_def S_def APOSTROPHE_def)
  from build_command_replaces_every_occurrence [where tok = "S ''a b'' @ [APOSTROPHE] @ S ''c''"]
  have "sh_word (shlex_quote (S ''a b'' @ [APOSTROPHE] @ S ''c'')) =
      Some (S ''a b'' @ [APOSTROPHE] @ S ''c'')"
    by blast
  note word2 = this [unfolded escaped]
  from absent none first [folded split] unsafe quoted word [unfolded quoted] rest escaped word2
  show ?thesis by (simp del: append_assoc add: append_assoc [symmetric])
qed

section \<open>Properties of the argument validation\<close>

lemma environment_items_Inr:
  "environment_items items extra = Inr m \<Longrightarrow> list_all valid_item items"
  by (induction items arbitrary: extra) (auto simp: Let_def valid_item_def split: if_splits)

lemma environment_items_Inl:
  "environment_items items extra = Inl e \<Longrightarrow>
     (\<exists>item. e = ValueError item) \<and> \<not> list_all valid_item items"
  by (induction items arbitrary: extra) (auto simp: Let_def valid_item_def split: if_splits)

lemma main_rejected:
  "parse_args w a = (evs, Inl e) \<Longrightarrow> main w a = (evs, Inl e)"
  by (simp add: main_def io_bind_def)

text \<open>
  Claim C4, as amended. The check is that the placeholder occurs in the template as a
  substring. When it does not, \<^verbatim>\<open>main\<close> prints the message of the check and raises
  \<^verbatim>\<open>SystemExit\<close> with code 65, which no other exit of the program uses; standard input is
  not read and no command is built, printed, run or submitted. The empty placeholder
  occurs in every template, so the check lets it pass.
\<close>

theorem placeholder_absent_rejected:
  assumes "\<not> sublist (placeholder a) (command a)"
  shows "main w a =
           ([Stderr (NoPlaceholder (placeholder a))], Inl (SystemExit EXIT_NO_PLACEHOLDER)) \<and>
         EXIT_NO_PLACEHOLDER \<notin>
           {EXIT_OK, EXIT_USAGE, EXIT_BAD_ENV, EXIT_NEEDS_NO_STDIN_FOR_PAR, EXIT_CHILD_FAILED}"
proof -
  from assms have "\<not> str_contains (placeholder a) (command a)"
    by (simp add: str_contains_sublist)
  then have "parse_args w a =
      ([Stderr (NoPlaceholder (placeholder a))], Inl (SystemExit EXIT_NO_PLACEHOLDER))"
    by (simp add: parse_args_def)
  then show ?thesis
    by (simp add: main_rejected EXIT_NO_PLACEHOLDER_def EXIT_OK_def EXIT_USAGE_def
        EXIT_BAD_ENV_def EXIT_NEEDS_NO_STDIN_FOR_PAR_def EXIT_CHILD_FAILED_def)
qed

theorem placeholder_absent_rejected_witness:
  "\<not> sublist (placeholder (example_args (S ''echo hello''))) (command (example_args (S ''echo hello''))) \<and>
   main (example_world (S ''a'') (\<lambda>c. 0)) (example_args (S ''echo hello'')) =
     ([Stderr (NoPlaceholder (S ''{}''))], Inl (SystemExit 65))"
proof -
  have absent: "\<not> sublist (placeholder (example_args (S ''echo hello'')))
      (command (example_args (S ''echo hello'')))"
    by (simp add: str_contains_sublist [symmetric] example_args_def S_def)
  from placeholder_absent_rejected [OF absent, of "example_world (S ''a'') (\<lambda>c. 0)"] absent
  show ?thesis by (simp add: example_args_def EXIT_NO_PLACEHOLDER_def)
qed

text \<open>
  The claim as stated fails for the empty placeholder: \<^verbatim>\<open>each -p '' echo\<close> with the input
  \<^verbatim>\<open>a\<close> is not rejected; the command built from the token is run and \<^verbatim>\<open>main\<close> returns 0.
\<close>

theorem empty_placeholder_counterexample:
  "placeholder ((example_args (S ''echo'')) \<lparr>placeholder := []\<rparr>) = [] \<and>
   main (example_world (S ''a'') (\<lambda>c. 0)) ((example_args (S ''echo'')) \<lparr>placeholder := []\<rparr>) =
     ([ReadStdin, Build (S ''aeacahaoa''),
       Subprocess \<lparr>command_str = S ''aeacahaoa'', shell_path = None, pass_stdin = True,
                   child_env = None\<rparr>],
      Inr 0)"
  by (simp add: main_def io_bind_def parse_args_def apply_environment_def decode_stdin_def
      tokenize_input_def splitlines_def run_command_def build_command_def shlex_quote_def
      str_replace_def is_safe_def islinebreak_def int_or_def EXIT_OK_def example_args_def
      example_world_def S_def Let_def)

text \<open>
  Claim C9. When more than one process is requested and \<^verbatim>\<open>--no-stdin\<close> is not given,
  \<^verbatim>\<open>main\<close> ends in \<^verbatim>\<open>SystemExit\<close> with one of the codes of the configuration errors
  (65, 66, 67; none of them is 0 or the code 70 of a failed child) after printing one
  message: standard input is not read and no command is built, printed, run or
  submitted. When the placeholder is in the template and the environment items are
  well-formed, the code is 67.
\<close>

theorem parallel_without_no_stdin_rejected:
  assumes "max_procs a > 1" and "\<not> no_stdin a"
  shows "\<exists>msg code.
           main w a = ([Stderr msg], Inl (SystemExit code)) \<and>
           code \<in> {EXIT_NO_PLACEHOLDER, EXIT_BAD_ENV, EXIT_NEEDS_NO_STDIN_FOR_PAR} \<and>
           code \<notin> {EXIT_OK, EXIT_CHILD_FAILED} \<and>
           (if str_contains (placeholder a) (command a) \<and> list_all valid_item (env a)
            then msg = NeedsNoStdin \<and> code = EXIT_NEEDS_NO_STDIN_FOR_PAR
            else code = EXIT_NO_PLACEHOLDER \<or> code = EXIT_BAD_ENV)"
proof (cases "str_contains (placeholder a) (command a)")
  case False
  then have "main w a =
      ([Stderr (NoPlaceholder (placeholder a))], Inl (SystemExit EXIT_NO_PLACEHOLDER))"
    by (simp add: main_rejected parse_args_def)
  with False show ?thesis
    by (simp add: EXIT_NO_PLACEHOLDER_def EXIT_OK_def EXIT_CHILD_FAILED_def)
next
  case True
  show ?thesis
  proof (cases "environment_items (env a) Map.empty")
    case (Inl e)
    from environment_items_Inl [OF Inl] obtain item
      where e: "e = ValueError item" and bad: "\<not> list_all valid_item (env a)" by blast
    from True Inl e have "main w a = ([Stderr (BadEnv item)], Inl (SystemExit EXIT_BAD_ENV))"
      by (simp add: main_rejected parse_args_def apply_environment_def)
    with bad show ?thesis
      by (simp add: EXIT_BAD_ENV_def EXIT_OK_def EXIT_CHILD_FAILED_def)
  next
    case (Inr m)
    from environment_items_Inr [OF Inr] have good: "list_all valid_item (env a)" .
    from True Inr assms
    have "main w a = ([Stderr NeedsNoStdin], Inl (SystemExit EXIT_NEEDS_NO_STDIN_FOR_PAR))"
      by (simp add: main_rejected parse_args_def apply_environment_def)
    with True good show ?thesis
      by (simp add: EXIT_NEEDS_NO_STDIN_FOR_PAR_def EXIT_OK_def EXIT_CHILD_FAILED_def)
  qed
qed

theorem parallel_without_no_stdin_rejected_witness:
  "max_procs ((example_args (S ''gzip {}'')) \<lparr>max_procs := 4\<rparr>) > 1 \<and>
   \<not> no_stdin ((example_args (S ''gzip {}'')) \<lparr>max_procs := 4\<rparr>) \<and>
   main (example_world (S ''a'') (\<lambda>c. 0)) ((example_args (S ''gzip {}'')) \<lparr>max_procs := 4\<rparr>) =
     ([Stderr NeedsNoStdin], Inl (SystemExit 67))"
proof -
  have hyps: "max_procs ((example_args (S ''gzip {}'')) \<lparr>max_procs := 4\<rparr>) > 1"
    "\<not> no_stdin ((example_args (S ''gzip {}'')) \<lparr>max_procs := 4\<rparr>)"
    by (simp_all add: example_args_def)
  have ok: "str_contains (placeholder ((example_args (S ''gzip {}'')) \<lparr>max_procs := 4\<rparr>))
      (command ((example_args (S ''gzip {}'')) \<lparr>max_procs := 4\<rparr>))"
    "list_all valid_item (env ((example_args (S ''gzip {}'')) \<lparr>max_procs := 4\<rparr>))"
    by (simp_all add: example_args_def S_def)
  from parallel_without_no_stdin_rejected [OF hyps, of "example_world (S ''a'') (\<lambda>c. 0)"] ok hyps
  show ?thesis by (auto simp: EXIT_NEEDS_NO_STDIN_FOR_PAR_def)
qed

section \<open>Properties of the orchestrator\<close>

lemma parse_args_accepted:
  assumes "str_contains (placeholder a) (command a)" and "list_all valid_item (env a)"
    and "max_procs a \<le> 1 \<or> no_stdin a"
  shows "parse_args w a = ([], Inr a) \<and>
         (if env a \<noteq> [] then map_sum id Some (apply_environment w (env a)) else Inr None) =
           Inr (child_environment w a)"
proof (cases "environment_items (env a) Map.empty")
  case (Inl e)
  from environment_items_Inl [OF Inl] assms(2) show ?thesis by simp
next
  case (Inr m)
  with assms show ?thesis
    by (auto simp: parse_args_def apply_environment_def child_environment_def)
qed

lemma parse_args_result:
  "(\<exists>evs e. parse_args w a = (evs, Inl e)) \<or>
   (str_contains (placeholder a) (command a) \<and> list_all valid_item (env a) \<and>
    (max_procs a \<le> 1 \<or> no_stdin a))"
proof (cases "environment_items (env a) Map.empty")
  case (Inl e)
  from environment_items_Inl [OF Inl] obtain item where "e = ValueError item" by blast
  with Inl show ?thesis
    by (simp add: parse_args_def apply_environment_def)
next
  case (Inr m)
  from environment_items_Inr [OF Inr] Inr show ?thesis
    by (auto simp: parse_args_def apply_environment_def)
qed

lemma main_accepted:
  assumes "str_contains (placeholder a) (command a)" and "list_all valid_item (env a)"
    and "max_procs a \<le> 1 \<or> no_stdin a"
  shows "main w a =
     (case decode w (stdin_bytes w) (encoding a) (errors a) of
        Inl e \<Rightarrow> ([ReadStdin], Inl e)
      | Inr text \<Rightarrow>
          (case (let tokens = tokenize_input text (delimiter a) (null_opt a) (keep_empty a)
                       (strip a) in
                 if tokens = [] then ([], Inr EXIT_OK)
                 else if dry_run a then dry_run_loop a tokens
                 else if max_procs a \<le> 1
                   then sequential_loop w a (child_environment w a) 0 tokens
                 else parallel_path w a (child_environment w a) tokens) of
             (evs, r) \<Rightarrow> (ReadStdin # evs, r)))"
  using parse_args_accepted [OF assms, of w]
  by (simp add: main_def io_bind_def decode_stdin_def split: sum.splits prod.splits)

lemma sequential_loop_Cons:
  "sequential_loop w a (child_environment w a) n (tok # toks) =
     (case child w n (sequential_invocation w a tok) of
        Inl e \<Rightarrow> (sequential_events w a tok, Inl e)
      | Inr rc \<Rightarrow>
          if rc \<noteq> 0 then (sequential_events w a tok, Inr rc)
          else (case sequential_loop w a (child_environment w a) (Suc n) toks of
                  (evs, r) \<Rightarrow> (sequential_events w a tok @ evs, r)))"
  by (simp add: io_bind_def run_command_def sequential_events_def sequential_invocation_def
      token_command_def int_or_def Let_def split: sum.splits prod.splits)

lemma sequential_loop_stops:
  assumes "\<forall>i<length passed. child w (n + i) (sequential_invocation w a (passed ! i)) = Inr 0"
    and "child w (n + length passed) (sequential_invocation w a failing) = Inr rc"
    and "rc \<noteq> 0"
  shows "sequential_loop w a (child_environment w a) n (passed @ failing # rest) =
           (concat (map (sequential_events w a) (passed @ [failing])), Inr rc)"
  using assms
proof (induction passed arbitrary: n)
  case Nil
  then show ?case
    by (simp add: sequential_loop_Cons del: sequential_loop.simps)
next
  case (Cons tok passed)
  from Cons.prems(1) have first: "child w n (sequential_invocation w a tok) = Inr 0"
    by force
  have "\<forall>i<length passed. child w (Suc n + i) (sequential_invocation w a (passed ! i)) = Inr 0"
  proof (intro allI impI)
    fix i assume "i < length passed"
    then have "Suc i < length (tok # passed)" by simp
    with Cons.prems(1)
    have "child w (n + Suc i) (sequential_invocation w a ((tok # passed) ! Suc i)) = Inr 0"
      by blast
    then show "child w (Suc n + i) (sequential_invocation w a (passed ! i)) = Inr 0" by simp
  qed
  moreover from Cons.prems(2)
  have "child w (Suc n + length passed) (sequential_invocation w a failing) = Inr rc" by simp
  ultimately have "sequential_loop w a (child_environment w a) (Suc n) (passed @ failing # rest) =
      (concat (map (sequential_events w a) (passed @ [failing])), Inr rc)"
    using Cons.IH Cons.prems(3) by blast
  with first show ?case
    by (simp add: sequential_loop_Cons del: sequential_loop.simps)
qed

text \<open>
  Claim C1. On the sequential path (\<^verbatim>\<open>max_procs\<close> at most 1, no dry run, arguments that
  pass \<^verbatim>\<open>parse_args\<close>): when the commands of the tokens \<open>passed\<close> return 0 and the command
  of the next token \<open>failing\<close> returns \<open>rc\<close>, not 0, then \<^verbatim>\<open>main\<close> returns \<open>rc\<close>, and after
  reading standard input it has built and run the commands of \<open>passed\<close> and of \<open>failing\<close>,
  in this order, and nothing else: no command of a token of \<open>rest\<close> is built or run.
\<close>

theorem sequential_stops_at_first_failure:
  assumes "str_contains (placeholder a) (command a)" and "list_all valid_item (env a)"
    and "max_procs a \<le> 1" and "\<not> dry_run a"
    and "decode w (stdin_bytes w) (encoding a) (errors a) = Inr text"
    and "tokenize_input text (delimiter a) (null_opt a) (keep_empty a) (strip a) =
           passed @ failing # rest"
    and "\<forall>i<length passed. child w i (sequential_invocation w a (passed ! i)) = Inr 0"
    and "child w (length passed) (sequential_invocation w a failing) = Inr rc"
    and "rc \<noteq> 0"
  shows "main w a =
           (ReadStdin # concat (map (sequential_events w a) (passed @ [failing])), Inr rc)"
proof -
  have "sequential_loop w a (child_environment w a) 0 (passed @ failing # rest) =
      (concat (map (sequential_events w a) (passed @ [failing])), Inr rc)"
    using assms(7-9) by (intro sequential_loop_stops) simp_all
  with assms(1-6) show ?thesis
    by (simp add: main_accepted)
qed

lemma example_tokens:
  "tokenize_input (S ''a\<newline>b\<newline>c\<newline>'') None False False False = [S ''a'', S ''b'', S ''c'']"
  by (simp add: tokenize_input_def splitlines_def islinebreak_def S_def CR_def LF_def)

lemma example_commands:
  "build_command (S ''echo {}'') (S ''{}'') (S ''a'') True = S ''echo a''"
  "build_command (S ''echo {}'') (S ''{}'') (S ''b'') True = S ''echo b''"
  "build_command (S ''echo {}'') (S ''{}'') (S ''c'') True = S ''echo c''"
  by (simp_all add: build_command_def shlex_quote_def str_replace_def is_safe_def S_def)

lemma S_eq_iff: "S xs = S ys \<longleftrightarrow> xs = ys"
  by (simp add: S_def inj_map_eq_map inj_on_def)

theorem sequential_stops_at_first_failure_witness:
  "tokenize_input (S ''a\<newline>b\<newline>c\<newline>'') (delimiter echo_args) (null_opt echo_args)
     (keep_empty echo_args) (strip echo_args) = [S ''a''] @ S ''b'' # [S ''c''] \<and>
   child abc_world 0 (sequential_invocation abc_world echo_args (S ''a'')) = Inr 0 \<and>
   child abc_world 1 (sequential_invocation abc_world echo_args (S ''b'')) = Inr 2 \<and>
   main abc_world echo_args =
     ([ReadStdin,
       Build (S ''echo a''),
       Subprocess \<lparr>command_str = S ''echo a'', shell_path = None, pass_stdin = True,
                   child_env = None\<rparr>,
       Build (S ''echo b''),
       Subprocess \<lparr>command_str = S ''echo b'', shell_path = None, pass_stdin = True,
                   child_env = None\<rparr>],
      Inr 2)"
proof -
  have config: "str_contains (placeholder echo_args) (command echo_args)"
    "list_all valid_item (env echo_args)" "max_procs echo_args \<le> 1" "\<not> dry_run echo_args"
    by (simp_all add: echo_args_def example_args_def S_def)
  have input: "decode abc_world (stdin_bytes abc_world) (encoding echo_args) (errors echo_args) =
      Inr (S ''a\<newline>b\<newline>c\<newline>'')"
    by (simp add: abc_world_def example_world_def)
  have tokens: "tokenize_input (S ''a\<newline>b\<newline>c\<newline>'') (delimiter echo_args) (null_opt echo_args)
      (keep_empty echo_args) (strip echo_args) = [S ''a''] @ S ''b'' # [S ''c'']"
    by (simp add: echo_args_def example_args_def example_tokens)
  have invs: "sequential_invocation abc_world echo_args (S ''a'') =
        \<lparr>command_str = S ''echo a'', shell_path = None, pass_stdin = True, child_env = None\<rparr>"
      "sequential_invocation abc_world echo_args (S ''b'') =
        \<lparr>command_str = S ''echo b'', shell_path = None, pass_stdin = True, child_env = None\<rparr>"
    by (simp_all add: sequential_invocation_def token_command_def child_environment_def
        echo_args_def example_args_def example_commands)
  have first: "child abc_world 0 (sequential_invocation abc_world echo_args (S ''a'')) = Inr 0"
    unfolding invs by (simp add: abc_world_def example_world_def S_eq_iff)
  have second: "child abc_world (length [S ''a''])
      (sequential_invocation abc_world echo_args (S ''b'')) = Inr 2"
    unfolding invs by (simp add: abc_world_def example_world_def)
  from first have "\<forall>i<length [S ''a'']. child abc_world i
      (sequential_invocation abc_world echo_args ([S ''a''] ! i)) = Inr 0"
    by simp
  note children = this second
  have cmds: "token_command echo_args (S ''a'') = S ''echo a''"
      "token_command echo_args (S ''b'') = S ''echo b''"
    by (simp_all add: token_command_def echo_args_def example_args_def example_commands)
  have quiet: "\<not> trace echo_args"
    by (simp add: echo_args_def example_args_def)
  have events: "sequential_events abc_world echo_args (S ''a'') =
        [Build (S ''echo a''), Subprocess \<lparr>command_str = S ''echo a'', shell_path = None,
           pass_stdin = True, child_env = None\<rparr>]"
      "sequential_events abc_world echo_args (S ''b'') =
        [Build (S ''echo b''), Subprocess \<lparr>command_str = S ''echo b'', shell_path = None,
           pass_stdin = True, child_env = None\<rparr>]"
    unfolding sequential_events_def invs cmds using quiet by simp_all
  from sequential_stops_at_first_failure [OF config input tokens children] tokens children invs
  show ?thesis by (simp add: events)
qed

lemma run_command_parallel:
  "run_command w n (token_command a tok) (shell a) False (trace a) (child_environment w a) =
     (worker_events a (parallel_invocation w a tok), child w n (parallel_invocation w a tok))"
  by (simp add: run_command_def worker_events_def parallel_invocation_def Let_def)

lemma submit_loop_result:
  "submit_loop w a (child_environment w a) n toks futures =
     (concat (map (parallel_events w a) toks),
      futures @
      map (\<lambda>i. (worker_events a (parallel_invocation w a (toks ! i)),
                 child w (n + i) (parallel_invocation w a (toks ! i)))) [0..<length toks])"
proof (induction toks arbitrary: n futures)
  case Nil
  show ?case by simp
next
  case (Cons tok toks)
  have "map (\<lambda>i. (worker_events a (parallel_invocation w a ((tok # toks) ! i)),
                   child w (n + i) (parallel_invocation w a ((tok # toks) ! i))))
          [0..<length (tok # toks)] =
        (worker_events a (parallel_invocation w a tok), child w n (parallel_invocation w a tok)) #
        map (\<lambda>i. (worker_events a (parallel_invocation w a (toks ! i)),
                   child w (Suc n + i) (parallel_invocation w a (toks ! i)))) [0..<length toks]"
  proof -
    have "[0..<length (tok # toks)] = 0 # map Suc [0..<length toks]"
      by (simp add: upt_conv_Cons map_Suc_upt del: upt_Suc)
    then show ?thesis by (simp add: o_def del: upt_Suc)
  qed
  moreover have "run_command w n (build_command (command a) (placeholder a) tok (\<not> no_quote a))
      (shell a) False (trace a) (child_environment w a) =
    (worker_events a (parallel_invocation w a tok), child w n (parallel_invocation w a tok))"
    using run_command_parallel [of w n a tok] by (simp add: token_command_def)
  ultimately show ?case
    using Cons.IH [of "Suc n"]
    by (simp add: parallel_events_def parallel_invocation_def token_command_def Let_def)
qed

lemma map_nth_upt: "map (\<lambda>i. f (xs ! i)) [0..<length xs] = map f xs"
  by (intro nth_equalityI) simp_all

lemma parallel_path_result:
  "parallel_path w a (child_environment w a) toks =
     (concat (map (parallel_events w a) toks) @
      interleave (schedule w) (map (\<lambda>tok. worker_events a (parallel_invocation w a tok)) toks),
      collect_loop EXIT_OK (as_completed w
        (map (\<lambda>i. child w i (parallel_invocation w a (toks ! i))) [0..<length toks])))"
proof -
  have "map (\<lambda>i. worker_events a (parallel_invocation w a (toks ! i))) [0..<length toks] =
      map (\<lambda>tok. worker_events a (parallel_invocation w a tok)) toks"
    by (rule map_nth_upt)
  then show ?thesis
    by (simp add: parallel_path_def submit_loop_result o_def)
qed

lemma mset_concat_update:
  assumes "i < length queues" and "queues ! i = e # q"
  shows "mset (concat queues) = add_mset e (mset (concat (queues[i := q])))"
proof -
  from assms have "queues = take i queues @ (e # q) # drop (Suc i) queues"
    by (metis id_take_nth_drop)
  moreover from assms(1) have "queues[i := q] = take i queues @ q # drop (Suc i) queues"
    by (rule upd_conv_take_nth_drop)
  ultimately show ?thesis
    by (metis concat.simps(2) concat_append mset.simps(2) union_mset_add_mset_right
        append_Cons mset_append)
qed

lemma mset_interleave: "mset (interleave picks queues) = mset (concat queues)"
proof (induction picks arbitrary: queues)
  case Nil
  show ?case by simp
next
  case (Cons i picks)
  show ?case
  proof (cases "i < length queues \<and> queues ! i \<noteq> []")
    case True
    then obtain e q where eq: "queues ! i = e # q" by (cases "queues ! i") auto
    with True mset_concat_update [of i queues e q] Cons.IH [of "queues[i := q]"]
    show ?thesis by simp
  next
    case False
    with Cons.IH [of queues] show ?thesis by auto
  qed
qed

lemma mset_ran: "mset (ran evs) = (\<Sum>e\<in>#mset evs. mset (ran [e]))"
  by (induction evs rule: ran.induct) simp_all

lemma ran_append: "ran (xs @ ys) = ran xs @ ran ys"
  by (induction xs rule: ran.induct) simp_all

lemma ran_parallel_events: "ran (concat (map (parallel_events w a) toks)) = []"
  by (induction toks) (simp_all add: parallel_events_def)

lemma ran_worker_events: "ran (concat (map (worker_events a) invs)) = invs"
  by (induction invs) (simp_all add: worker_events_def ran_append)

lemma ran_interleave:
  "mset (ran (interleave picks (map (worker_events a) invs))) = mset invs"
proof -
  have "mset (ran (interleave picks (map (worker_events a) invs))) =
      mset (ran (concat (map (worker_events a) invs)))"
    by (simp add: mset_ran [of "interleave picks (map (worker_events a) invs)"]
        mset_ran [of "concat (map (worker_events a) invs)"] mset_interleave)
  then show ?thesis by (simp add: ran_worker_events)
qed

lemma collect_loop_codes:
  "collect_loop r (map Inr codes) = Inr (if r \<noteq> 0 then r else first_nonzero codes)"
  by (induction codes arbitrary: r) (auto simp: int_or_def EXIT_OK_def first_nonzero_def)

lemma first_nonzero_zero: "first_nonzero codes = 0 \<longleftrightarrow> (\<forall>rc\<in>set codes. rc = 0)"
  unfolding first_nonzero_def by (induction codes) auto

lemma interleave_Nil: "interleave picks [] = []"
  using mset_interleave [of picks "[]"] by simp

text \<open>
  Claim C2, as amended. On the parallel path (\<^verbatim>\<open>max_procs\<close> above 1 with \<^verbatim>\<open>--no-stdin\<close>, no
  dry run, arguments that pass \<^verbatim>\<open>parse_args\<close>) \<^verbatim>\<open>main\<close> builds and submits the command of
  every token once, in token order, and the workers run every one of these commands
  once, in the order the schedule gives, whatever the children do. When every child
  returns a code (\<open>codes\<close>, in submission order; \<open>completed\<close>, in completion order),
  \<^verbatim>\<open>main\<close> returns the first non-zero code in the order in which \<^verbatim>\<open>as_completed\<close> yields
  the results, and 0 when there is none: the codes of the calls that have finished when
  it is called come first, in the order \<open>early\<close> of its set, then the others in
  completion order. The result is 0 exactly when every child returned 0, and it is the
  first non-zero code in completion order when no call has finished before
  \<^verbatim>\<open>as_completed\<close> is called.
\<close>

theorem parallel_runs_every_command:
  assumes "str_contains (placeholder a) (command a)" and "list_all valid_item (env a)"
    and "max_procs a > 1" and "no_stdin a" and "\<not> dry_run a"
    and "decode w (stdin_bytes w) (encoding a) (errors a) = Inr text"
    and "tokenize_input text (delimiter a) (null_opt a) (keep_empty a) (strip a) = tokens"
  shows "fst (main w a) =
           ReadStdin # concat (map (parallel_events w a) tokens) @
           interleave (schedule w)
             (map (\<lambda>tok. worker_events a (parallel_invocation w a tok)) tokens) \<and>
         mset (ran (fst (main w a))) = mset (map (parallel_invocation w a) tokens) \<and>
         (\<forall>codes completed early.
            map (\<lambda>i. child w i (parallel_invocation w a (tokens ! i))) [0..<length tokens] =
              map Inr codes \<and>
            finish_order w (map Inr codes) = map Inr completed \<and>
            mset completed = mset codes \<and>
            early_yield w (map Inr (take (finished_early w) completed)) = map Inr early \<and>
            mset early = mset (take (finished_early w) completed) \<longrightarrow>
            snd (main w a) =
              Inr (first_nonzero (early @ drop (finished_early w) completed)) \<and>
            (snd (main w a) = Inr 0 \<longleftrightarrow> (\<forall>rc\<in>set codes. rc = 0)) \<and>
            (finished_early w = 0 \<longrightarrow> snd (main w a) = Inr (first_nonzero completed)))"
proof -
  let ?calls = "map (\<lambda>tok. worker_events a (parallel_invocation w a tok)) tokens"
  let ?futs = "map (\<lambda>i. child w i (parallel_invocation w a (tokens ! i))) [0..<length tokens]"
  have run: "main w a =
      (ReadStdin # concat (map (parallel_events w a) tokens) @ interleave (schedule w) ?calls,
       if tokens = [] then Inr 0 else collect_loop EXIT_OK (as_completed w ?futs))"
  proof (cases "tokens = []")
    case True
    with assms show ?thesis
      by (simp add: main_accepted EXIT_OK_def interleave_Nil)
  next
    case False
    with assms show ?thesis
      by (simp add: main_accepted parallel_path_result)
  qed
  have events: "fst (main w a) =
      ReadStdin # concat (map (parallel_events w a) tokens) @ interleave (schedule w) ?calls"
    by (simp add: run)
  have "?calls = map (worker_events a) (map (parallel_invocation w a) tokens)"
    by simp
  then have "mset (ran (interleave (schedule w) ?calls)) =
      mset (map (parallel_invocation w a) tokens)"
    by (simp only: ran_interleave)
  then have executed: "mset (ran (fst (main w a))) = mset (map (parallel_invocation w a) tokens)"
    by (simp add: events ran_append ran_parallel_events)
  have codes: "snd (main w a) = Inr (first_nonzero (early @ drop (finished_early w) completed)) \<and>
      (snd (main w a) = Inr 0 \<longleftrightarrow> (\<forall>rc\<in>set codes. rc = 0)) \<and>
      (finished_early w = 0 \<longrightarrow> snd (main w a) = Inr (first_nonzero completed))"
    if h: "?futs = map Inr codes \<and>
      finish_order w (map Inr codes) = map Inr completed \<and>
      mset completed = mset codes \<and>
      early_yield w (map Inr (take (finished_early w) completed)) = map Inr early \<and>
      mset early = mset (take (finished_early w) completed)"
    for codes completed early
  proof -
    let ?k = "finished_early w"
    from h have yielded: "as_completed w ?futs = map Inr (early @ drop ?k completed)"
      by (simp add: as_completed_def take_map drop_map)
    have res: "snd (main w a) = Inr (first_nonzero (early @ drop ?k completed))"
    proof (cases "tokens = []")
      case True
      with h have "codes = []" by simp
      with h have "completed = []" by simp
      with h have "early = []" by simp
      with True \<open>completed = []\<close> show ?thesis
        by (simp add: run first_nonzero_def)
    next
      case False
      with yielded have "snd (main w a) =
          collect_loop 0 (map Inr (early @ drop ?k completed))"
        by (simp add: run EXIT_OK_def del: map_append)
      then show ?thesis
        by (simp only: collect_loop_codes) simp
    qed
    from h have "mset (early @ drop ?k completed) = mset codes"
      by (metis append_take_drop_id mset_append)
    then have "set (early @ drop ?k completed) = set codes"
      by (metis set_mset_mset)
    with res have zero: "snd (main w a) = Inr 0 \<longleftrightarrow> (\<forall>rc\<in>set codes. rc = 0)"
      by (simp add: first_nonzero_zero)
    have "snd (main w a) = Inr (first_nonzero completed)" if "?k = 0"
    proof -
      from that h have "early = []" by simp
      with that res show ?thesis by simp
    qed
    with res zero show ?thesis by blast
  qed
  from events executed codes show ?thesis by blast
qed

lemma parallel_example_config:
  "str_contains (placeholder parallel_args) (command parallel_args)"
  "list_all valid_item (env parallel_args)" "max_procs parallel_args > 1"
  "no_stdin parallel_args" "\<not> dry_run parallel_args"
  by (simp_all add: parallel_args_def example_args_def S_def)

lemma parallel_example_tokens:
  "tokenize_input (S ''a\<newline>b\<newline>c\<newline>'') (delimiter parallel_args)
     (null_opt parallel_args) (keep_empty parallel_args) (strip parallel_args) =
   [S ''a'', S ''b'', S ''c'']"
  by (simp add: parallel_args_def example_args_def example_tokens)

lemma parallel_example_commands:
  "token_command parallel_args (S ''a'') = S ''echo a''"
  "token_command parallel_args (S ''b'') = S ''echo b''"
  "token_command parallel_args (S ''c'') = S ''echo c''"
  "\<not> trace parallel_args"
  by (simp_all add: token_command_def parallel_args_def example_args_def example_commands)

lemma parallel_example_invocations:
  assumes "os_environ w = Map.empty"
  shows "parallel_invocation w parallel_args (S ''a'') =
      \<lparr>command_str = S ''echo a'', shell_path = None, pass_stdin = False, child_env = None\<rparr>"
    and "parallel_invocation w parallel_args (S ''b'') =
      \<lparr>command_str = S ''echo b'', shell_path = None, pass_stdin = False, child_env = None\<rparr>"
    and "parallel_invocation w parallel_args (S ''c'') =
      \<lparr>command_str = S ''echo c'', shell_path = None, pass_stdin = False, child_env = None\<rparr>"
  unfolding parallel_invocation_def parallel_example_commands
  by (simp_all add: child_environment_def parallel_args_def example_args_def)

lemma upt_3: "[0..<length [x, y, z]] = [0, 1, 2]"
  by (simp add: upt_conv_Cons)

theorem parallel_runs_every_command_witness:
  "map (\<lambda>i. child failing_world i
          (parallel_invocation failing_world parallel_args ([S ''a'', S ''b'', S ''c''] ! i)))
     [0..<length [S ''a'', S ''b'', S ''c'']] = map Inr [1, 2, 3] \<and>
   finish_order failing_world (map Inr [1, 2, 3]) = map Inr [3, 2, 1] \<and>
   finished_early failing_world = 0 \<and>
   fst (main failing_world parallel_args) =
     [ReadStdin,
      Build (S ''echo a''),
      Submit \<lparr>command_str = S ''echo a'', shell_path = None, pass_stdin = False,
               child_env = None\<rparr> False,
      Build (S ''echo b''),
      Submit \<lparr>command_str = S ''echo b'', shell_path = None, pass_stdin = False,
               child_env = None\<rparr> False,
      Build (S ''echo c''),
      Submit \<lparr>command_str = S ''echo c'', shell_path = None, pass_stdin = False,
               child_env = None\<rparr> False,
      Subprocess \<lparr>command_str = S ''echo c'', shell_path = None, pass_stdin = False,
                   child_env = None\<rparr>,
      Subprocess \<lparr>command_str = S ''echo a'', shell_path = None, pass_stdin = False,
                   child_env = None\<rparr>,
      Subprocess \<lparr>command_str = S ''echo b'', shell_path = None, pass_stdin = False,
                   child_env = None\<rparr>] \<and>
   mset (ran (fst (main failing_world parallel_args))) =
     mset [\<lparr>command_str = S ''echo a'', shell_path = None, pass_stdin = False, child_env = None\<rparr>,
           \<lparr>command_str = S ''echo b'', shell_path = None, pass_stdin = False, child_env = None\<rparr>,
           \<lparr>command_str = S ''echo c'', shell_path = None, pass_stdin = False, child_env = None\<rparr>] \<and>
   snd (main failing_world parallel_args) = Inr 3"
proof -
  have input: "decode failing_world (stdin_bytes failing_world) (encoding parallel_args)
      (errors parallel_args) = Inr (S ''a\<newline>b\<newline>c\<newline>'')"
    by (simp add: failing_world_def example_world_def)
  have "os_environ failing_world = Map.empty"
    by (simp add: failing_world_def example_world_def)
  note invs = parallel_example_invocations [OF this]
  have events: "concat (map (parallel_events failing_world parallel_args)
        [S ''a'', S ''b'', S ''c'']) =
      [Build (S ''echo a''),
       Submit \<lparr>command_str = S ''echo a'', shell_path = None, pass_stdin = False,
                child_env = None\<rparr> False,
       Build (S ''echo b''),
       Submit \<lparr>command_str = S ''echo b'', shell_path = None, pass_stdin = False,
                child_env = None\<rparr> False,
       Build (S ''echo c''),
       Submit \<lparr>command_str = S ''echo c'', shell_path = None, pass_stdin = False,
                child_env = None\<rparr> False]"
    unfolding parallel_events_def
    by (simp add: invs parallel_example_commands)
  have workers: "interleave (schedule failing_world)
        (map (\<lambda>tok. worker_events parallel_args (parallel_invocation failing_world parallel_args tok))
          [S ''a'', S ''b'', S ''c'']) =
      [Subprocess \<lparr>command_str = S ''echo c'', shell_path = None, pass_stdin = False,
                    child_env = None\<rparr>,
       Subprocess \<lparr>command_str = S ''echo a'', shell_path = None, pass_stdin = False,
                    child_env = None\<rparr>,
       Subprocess \<lparr>command_str = S ''echo b'', shell_path = None, pass_stdin = False,
                    child_env = None\<rparr>]"
    unfolding worker_events_def
    by (simp add: invs parallel_example_commands) (simp add: failing_world_def example_world_def)
  have outcomes: "map (\<lambda>i. child failing_world i
        (parallel_invocation failing_world parallel_args ([S ''a'', S ''b'', S ''c''] ! i)))
      [0..<length [S ''a'', S ''b'', S ''c'']] = map Inr [1, 2, 3]"
    unfolding upt_3 by (simp add: invs) (simp add: failing_world_def example_world_def S_eq_iff)
  have order: "finish_order failing_world (map Inr [1, 2, 3]) = map Inr [3, 2, 1]"
      "finished_early failing_world = 0"
    by (simp_all add: failing_world_def example_world_def)
  have perm: "mset [3, 2, 1 :: int] = mset [1, 2, 3]"
    by (simp add: add_mset_commute)
  have early: "early_yield failing_world (map Inr (take (finished_early failing_world) [3, 2, 1])) =
      map Inr []" "mset ([] :: int list) = mset (take (finished_early failing_world) [3, 2, 1])"
    by (simp_all add: failing_world_def example_world_def)
  note claim = parallel_runs_every_command [OF parallel_example_config input
      parallel_example_tokens]
  from claim have trace: "fst (main failing_world parallel_args) =
      ReadStdin # concat (map (parallel_events failing_world parallel_args)
        [S ''a'', S ''b'', S ''c'']) @
      interleave (schedule failing_world)
        (map (\<lambda>tok. worker_events parallel_args (parallel_invocation failing_world parallel_args tok))
          [S ''a'', S ''b'', S ''c''])"
    by blast
  from claim have executed: "mset (ran (fst (main failing_world parallel_args))) =
      mset (map (parallel_invocation failing_world parallel_args) [S ''a'', S ''b'', S ''c''])"
    by blast
  from claim outcomes order(1) perm early
  have result: "snd (main failing_world parallel_args) =
      Inr (first_nonzero ([] @ drop (finished_early failing_world) [3, 2, 1]))"
    by blast
  from trace [unfolded events workers] executed result outcomes order
  show ?thesis by (simp add: invs first_nonzero_def)
qed

text \<open>
  The claim as stated fails when several children have finished before \<^verbatim>\<open>main\<close> starts to
  collect the results: \<^verbatim>\<open>as_completed\<close> hands these out in the order of a set, not in the
  order in which they finished. In \<open>early_world\<close> the commands of \<^verbatim>\<open>a\<close>, \<^verbatim>\<open>b\<close> and \<^verbatim>\<open>c\<close>
  return 1, 2 and 3 and finish in this order, so that the first non-zero code in
  completion order is 1; the first two are handed out in the other order and \<^verbatim>\<open>main\<close>
  returns 2.
\<close>

theorem completion_order_counterexample:
  "map (\<lambda>i. child early_world i
          (parallel_invocation early_world parallel_args ([S ''a'', S ''b'', S ''c''] ! i)))
     [0..<length [S ''a'', S ''b'', S ''c'']] = map Inr [1, 2, 3] \<and>
   finish_order early_world (map Inr [1, 2, 3]) = map Inr [1, 2, 3] \<and>
   first_nonzero [1, 2, 3] = 1 \<and>
   as_completed early_world (map Inr [1, 2, 3]) = map Inr [2, 1, 3] \<and>
   snd (main early_world parallel_args) = Inr 2"
proof -
  have input: "decode early_world (stdin_bytes early_world) (encoding parallel_args)
      (errors parallel_args) = Inr (S ''a\<newline>b\<newline>c\<newline>'')"
    by (simp add: early_world_def example_world_def)
  have "os_environ early_world = Map.empty"
    by (simp add: early_world_def example_world_def)
  note invs = parallel_example_invocations [OF this]
  have outcomes: "map (\<lambda>i. child early_world i
        (parallel_invocation early_world parallel_args ([S ''a'', S ''b'', S ''c''] ! i)))
      [0..<length [S ''a'', S ''b'', S ''c'']] = map Inr [1, 2, 3]"
    unfolding upt_3 by (simp add: invs) (simp add: early_world_def example_world_def S_eq_iff)
  have yielded: "as_completed early_world (map Inr [1, 2, 3]) = map Inr [2, 1, 3]"
    by (simp add: as_completed_def early_world_def example_world_def)
  have "main early_world parallel_args =
      (ReadStdin # fst (parallel_path early_world parallel_args
          (child_environment early_world parallel_args) [S ''a'', S ''b'', S ''c'']),
       snd (parallel_path early_world parallel_args
          (child_environment early_world parallel_args) [S ''a'', S ''b'', S ''c'']))"
    using parallel_example_config input parallel_example_tokens
    by (simp add: main_accepted split: prod.splits)
  then have "snd (main early_world parallel_args) =
      collect_loop EXIT_OK (as_completed early_world
        (map (\<lambda>i. child early_world i
            (parallel_invocation early_world parallel_args ([S ''a'', S ''b'', S ''c''] ! i)))
          [0..<length [S ''a'', S ''b'', S ''c'']]))"
    by (simp only: parallel_path_result snd_conv)
  then have "snd (main early_world parallel_args) = Inr 2"
    unfolding outcomes yielded by (simp add: int_or_def EXIT_OK_def EXIT_CHILD_FAILED_def)
  with outcomes yielded show ?thesis
    by (simp add: first_nonzero_def early_world_def example_world_def)
qed

lemma sequential_loop_code:
  "sequential_loop w a (child_environment w a) n toks = (evs, Inr r) \<Longrightarrow>
     r = 0 \<or> (\<exists>k inv. child w k inv = Inr r \<and> Subprocess inv \<in> set evs)"
proof (induction toks arbitrary: n evs)
  case Nil
  then show ?case by (simp add: EXIT_OK_def)
next
  case (Cons tok toks)
  have here: "Subprocess (sequential_invocation w a tok) \<in> set (sequential_events w a tok)"
    by (simp add: sequential_events_def)
  show ?case
  proof (cases "child w n (sequential_invocation w a tok)")
    case (Inl e)
    with Cons.prems show ?thesis
      by (simp add: sequential_loop_Cons del: sequential_loop.simps)
  next
    case (Inr rc)
    show ?thesis
    proof (cases "rc = 0")
      case False
      with Inr Cons.prems have "r = rc" "evs = sequential_events w a tok"
        by (simp_all add: sequential_loop_Cons del: sequential_loop.simps)
      with Inr here show ?thesis by blast
    next
      case True
      obtain evs' r' where rest:
        "sequential_loop w a (child_environment w a) (Suc n) toks = (evs', r')"
        by (cases "sequential_loop w a (child_environment w a) (Suc n) toks")
      with True Inr Cons.prems have "r' = Inr r" "evs = sequential_events w a tok @ evs'"
        by (simp_all add: sequential_loop_Cons del: sequential_loop.simps)
      with Cons.IH [of "Suc n" evs'] rest show ?thesis by auto
    qed
  qed
qed

lemma collect_loop_code:
  "collect_loop r0 futs = Inr r \<Longrightarrow> r = r0 \<or> Inr r \<in> set futs"
proof (induction r0 futs rule: collect_loop.induct)
  case (1 return_code)
  then show ?case by simp
next
  case (2 return_code e futs)
  then show ?case by simp
next
  case (3 return_code rc futs)
  then show ?case
    by (auto simp: int_or_def split: if_splits)
qed

lemma dry_run_loop_code: "snd (dry_run_loop a toks) = Inr EXIT_OK"
  by (induction toks) (auto simp: io_bind_def Let_def split: prod.splits)

lemma parallel_path_code:
  assumes "set (as_completed w
      (map (\<lambda>i. child w i (parallel_invocation w a (toks ! i))) [0..<length toks])) \<subseteq>
    set (map (\<lambda>i. child w i (parallel_invocation w a (toks ! i))) [0..<length toks])"
    and "parallel_path w a (child_environment w a) toks = (evs, Inr r)"
  shows "r = 0 \<or> (\<exists>k inv. child w k inv = Inr r \<and> Submit inv (trace a) \<in> set evs)"
proof -
  let ?futs = "map (\<lambda>i. child w i (parallel_invocation w a (toks ! i))) [0..<length toks]"
  from assms(2) have evs: "evs = concat (map (parallel_events w a) toks) @
      interleave (schedule w) (map (\<lambda>tok. worker_events a (parallel_invocation w a tok)) toks)"
    and res: "collect_loop EXIT_OK (as_completed w ?futs) = Inr r"
    by (simp_all add: parallel_path_result)
  from collect_loop_code [OF res] show ?thesis
  proof
    assume "r = EXIT_OK"
    then show ?thesis by (simp add: EXIT_OK_def)
  next
    assume "Inr r \<in> set (as_completed w ?futs)"
    with assms(1) have "Inr r \<in> set ?futs" by blast
    then obtain i where i: "i < length toks"
      and r: "child w i (parallel_invocation w a (toks ! i)) = Inr r"
      by auto
    from i have "Submit (parallel_invocation w a (toks ! i)) (trace a) \<in> set evs"
      by (auto simp: evs parallel_events_def)
    with r show ?thesis by blast
  qed
qed

text \<open>
  Claim C10. Under its guard \<^verbatim>\<open>rc != 0\<close> the expression \<^verbatim>\<open>rc or EXIT_CHILD_FAILED\<close> is
  \<open>rc\<close>: the sentinel is never put in. So whenever \<^verbatim>\<open>main\<close> returns, the value is 0 or the
  return code of a child that was run (by \<^verbatim>\<open>subprocess.run\<close> on the sequential path, by a
  submitted call on the parallel path), given that \<^verbatim>\<open>as_completed\<close> yields only futures
  that were submitted.
\<close>

theorem sentinel_never_substituted:
  assumes "\<forall>futs. set (as_completed w futs) \<subseteq> set futs"
  shows "(\<forall>rc. rc \<noteq> 0 \<longrightarrow> int_or rc EXIT_CHILD_FAILED = rc) \<and>
         (\<forall>r. snd (main w a) = Inr r \<longrightarrow>
            r = 0 \<or>
            (\<exists>k inv. child w k inv = Inr r \<and>
               (Subprocess inv \<in> set (fst (main w a)) \<or>
                Submit inv (trace a) \<in> set (fst (main w a)))))"
proof (intro conjI allI impI)
  fix rc :: int
  assume "rc \<noteq> 0"
  then show "int_or rc EXIT_CHILD_FAILED = rc" by (simp add: int_or_def)
next
  fix r
  assume ret: "snd (main w a) = Inr r"
  from parse_args_result [of w a]
  show "r = 0 \<or> (\<exists>k inv. child w k inv = Inr r \<and>
      (Subprocess inv \<in> set (fst (main w a)) \<or> Submit inv (trace a) \<in> set (fst (main w a))))"
  proof
    assume "\<exists>evs e. parse_args w a = (evs, Inl e)"
    then obtain evs e where "parse_args w a = (evs, Inl e)" by blast
    from main_rejected [OF this] ret show ?thesis by simp
  next
    assume ok: "str_contains (placeholder a) (command a) \<and> list_all valid_item (env a) \<and>
      (max_procs a \<le> 1 \<or> no_stdin a)"
    then have shape: "main w a =
       (case decode w (stdin_bytes w) (encoding a) (errors a) of
          Inl e \<Rightarrow> ([ReadStdin], Inl e)
        | Inr text \<Rightarrow>
            (case (let tokens = tokenize_input text (delimiter a) (null_opt a) (keep_empty a)
                         (strip a) in
                   if tokens = [] then ([], Inr EXIT_OK)
                   else if dry_run a then dry_run_loop a tokens
                   else if max_procs a \<le> 1
                     then sequential_loop w a (child_environment w a) 0 tokens
                   else parallel_path w a (child_environment w a) tokens) of
               (evs, r) \<Rightarrow> (ReadStdin # evs, r)))"
      by (simp add: main_accepted)
    show ?thesis
    proof (cases "decode w (stdin_bytes w) (encoding a) (errors a)")
      case (Inl e)
      with shape ret show ?thesis by simp
    next
      case (Inr input)
      define tokens where
        "tokens = tokenize_input input (delimiter a) (null_opt a) (keep_empty a) (strip a)"
      consider (empty) "tokens = []"
        | (dry) "tokens \<noteq> []" "dry_run a"
        | (seq) "tokens \<noteq> []" "\<not> dry_run a" "max_procs a \<le> 1"
        | (par) "tokens \<noteq> []" "\<not> dry_run a" "\<not> max_procs a \<le> 1"
        by blast
      then show ?thesis
      proof cases
        case empty
        with shape Inr ret show ?thesis
          by (simp add: tokens_def EXIT_OK_def)
      next
        case dry
        with shape Inr have "snd (main w a) = snd (dry_run_loop a tokens)"
          by (simp add: tokens_def split: prod.splits)
        with ret show ?thesis by (simp add: dry_run_loop_code EXIT_OK_def)
      next
        case seq
        obtain evs r' where loop:
          "sequential_loop w a (child_environment w a) 0 tokens = (evs, r')"
          by (cases "sequential_loop w a (child_environment w a) 0 tokens")
        with seq shape Inr have m: "main w a = (ReadStdin # evs, r')"
          by (simp add: tokens_def)
        with ret have "r' = Inr r" by simp
        with sequential_loop_code [of w a 0 tokens evs r] loop m show ?thesis by auto
      next
        case par
        obtain evs r' where path: "parallel_path w a (child_environment w a) tokens = (evs, r')"
          by (cases "parallel_path w a (child_environment w a) tokens")
        with par shape Inr have m: "main w a = (ReadStdin # evs, r')"
          by (simp add: tokens_def)
        with ret have "r' = Inr r" by simp
        with path have "parallel_path w a (child_environment w a) tokens = (evs, Inr r)"
          by simp
        moreover from assms have "set (as_completed w
            (map (\<lambda>i. child w i (parallel_invocation w a (tokens ! i))) [0..<length tokens])) \<subseteq>
          set (map (\<lambda>i. child w i (parallel_invocation w a (tokens ! i))) [0..<length tokens])"
          by blast
        ultimately have "r = 0 \<or>
            (\<exists>k inv. child w k inv = Inr r \<and> Submit inv (trace a) \<in> set evs)"
          by (intro parallel_path_code)
        with m show ?thesis by auto
      qed
    qed
  qed
qed

lemma example_run_code: "snd (main abc_world echo_args) = Inr 2"
  by (simp add: main_def io_bind_def parse_args_def apply_environment_def decode_stdin_def
      example_tokens example_commands run_command_def int_or_def EXIT_OK_def EXIT_CHILD_FAILED_def
      abc_world_def echo_args_def example_args_def example_world_def S_eq_iff Let_def)
     (simp add: S_def)

theorem sentinel_never_substituted_witness:
  "set (as_completed abc_world [Inr 0, Inr 2]) \<subseteq> set [Inr 0, Inr 2] \<and>
   int_or 2 EXIT_CHILD_FAILED = 2 \<and>
   snd (main abc_world echo_args) = Inr 2 \<and>
   (\<exists>k inv. child abc_world k inv = Inr 2 \<and>
      (Subprocess inv \<in> set (fst (main abc_world echo_args)) \<or>
       Submit inv (trace echo_args) \<in> set (fst (main abc_world echo_args))))"
proof -
  have yields: "\<forall>futs. set (as_completed abc_world futs) \<subseteq> set futs"
    by (simp add: as_completed_def abc_world_def example_world_def)
  then have sub: "set (as_completed abc_world [Inr 0, Inr 2]) \<subseteq> set [Inr 0, Inr 2]"
    by blast
  note claim = sentinel_never_substituted [OF yields, of echo_args]
  from claim have guard: "int_or 2 EXIT_CHILD_FAILED = 2"
    by simp
  from claim have code: "snd (main abc_world echo_args) = Inr 2 \<longrightarrow> 2 = (0::int) \<or>
      (\<exists>k inv. child abc_world k inv = Inr 2 \<and>
        (Subprocess inv \<in> set (fst (main abc_world echo_args)) \<or>
         Submit inv (trace echo_args) \<in> set (fst (main abc_world echo_args))))"
    by blast
  from code example_run_code have "\<exists>k inv. child abc_world k inv = Inr 2 \<and>
      (Subprocess inv \<in> set (fst (main abc_world echo_args)) \<or>
       Submit inv (trace echo_args) \<in> set (fst (main abc_world echo_args)))"
    by simp
  with sub guard example_run_code show ?thesis by blast
qed

section \<open>Splitting on delimiters\<close>

lemma first_match_Some_iff:
  "first_match ds adv s = Some d \<longleftrightarrow>
     d \<in> set ds \<and> matches_at adv d s \<and>
     (\<forall>d'\<in>set (takeWhile (\<lambda>x. x \<noteq> d) ds). \<not> matches_at adv d' s)"
  by (induction ds) (auto simp: matches_at_def)

lemma first_match_None_iff:
  "first_match ds adv s = None \<longleftrightarrow> (\<forall>d\<in>set ds. \<not> matches_at adv d s)"
  by (induction ds) (auto simp: matches_at_def)

lemma re_search_at_start:
  "first_match ds adv s = Some d \<Longrightarrow> re_search ds adv s = Some ([], d, drop (length d) s)"
  by (cases s) (auto dest: first_match_prefix)

lemma re_search_first:
  assumes "d \<in> set ds"
    and "\<not> (adv \<and> u = [] \<and> d = [])"
    and "\<forall>k<length u. \<forall>d'\<in>set ds. \<not> matches_at (adv \<and> k = 0) d' (drop k (u @ d @ r))"
    and "\<forall>d'\<in>set (takeWhile (\<lambda>x. x \<noteq> d) ds). \<not> matches_at (adv \<and> u = []) d' (d @ r)"
  shows "re_search ds adv (u @ d @ r) = Some (u, d, r)"
  using assms
proof (induction u arbitrary: adv)
  case Nil
  then have "first_match ds adv (d @ r) = Some d"
    by (simp add: first_match_Some_iff matches_at_def)
  from re_search_at_start [OF this] show ?case by simp
next
  case (Cons c u)
  have "0 < length (c # u)" by simp
  with Cons.prems(3)
  have "\<forall>d'\<in>set ds. \<not> matches_at (adv \<and> (0::nat) = 0) d' (drop 0 ((c # u) @ d @ r))"
    by blast
  then have none: "first_match ds adv (c # u @ d @ r) = None"
    by (simp add: first_match_None_iff)
  have later: "\<forall>k<length u. \<forall>d'\<in>set ds. \<not> matches_at (False \<and> k = 0) d' (drop k (u @ d @ r))"
  proof (intro allI impI ballI)
    fix k d' assume "k < length u" "d' \<in> set ds"
    then have "Suc k < length (c # u)" by simp
    with Cons.prems(3) \<open>d' \<in> set ds\<close>
    have "\<not> matches_at (adv \<and> Suc k = 0) d' (drop (Suc k) ((c # u) @ d @ r))" by blast
    then show "\<not> matches_at (False \<and> k = 0) d' (drop k (u @ d @ r))" by simp
  qed
  from Cons.prems(4)
  have "\<forall>d'\<in>set (takeWhile (\<lambda>x. x \<noteq> d) ds). \<not> matches_at (False \<and> u = []) d' (d @ r)"
    by simp
  with Cons.IH [of False] Cons.prems(1) later
  have "re_search ds False (u @ d @ r) = Some (u, d, r)" by simp
  with none show ?case by simp
qed

lemma tokenize_input_delimiters:
  "ds \<noteq> [] \<Longrightarrow>
     tokenize_input s (Some ds) False ke sw = tokenize_loop ke sw (re_split_from ds False s) []"
  by (cases ds) (simp_all add: tokenize_input_def compile_delimiters_regex_def)

text \<open>
  Claim C3, as amended. At each split point \<^verbatim>\<open>tokenize_input\<close> consumes, at the leftmost
  position where a delimiter matches, the first delimiter in the order of the list that
  matches there, not the longest. With \<open>u\<close> the text before that position, \<open>d\<close> the
  delimiter and \<open>r\<close> the rest: the first piece is \<open>u\<close> and the split goes on with \<open>r\<close>.
  (\<open>adv\<close> is the state of the split directly behind an empty match, where the empty
  delimiter does not match; \<^verbatim>\<open>tokenize_input\<close> starts without it.)
\<close>

theorem split_consumes_first_listed_delimiter:
  assumes "d \<in> set ds"
    and "\<not> (adv \<and> u = [] \<and> d = [])"
    and "\<forall>k<length u. \<forall>d'\<in>set ds. \<not> matches_at (adv \<and> k = 0) d' (drop k (u @ d @ r))"
    and "\<forall>d'\<in>set (takeWhile (\<lambda>x. x \<noteq> d) ds). \<not> matches_at (adv \<and> u = []) d' (d @ r)"
  shows "re_split_from ds adv (u @ d @ r) = u # re_split_from ds (d = []) r \<and>
         (\<not> adv \<longrightarrow>
            tokenize_input (u @ d @ r) (Some ds) False ke sw =
              tokenize_loop ke sw (u # re_split_from ds (d = []) r) [])"
proof -
  from re_search_first [OF assms]
  have step: "re_split_from ds adv (u @ d @ r) = u # re_split_from ds (d = []) r"
    by (subst re_split_from.simps) simp
  from assms(1) have "ds \<noteq> []" by auto
  with step show ?thesis
    by (cases adv) (simp_all add: tokenize_input_delimiters del: tokenize_loop.simps)
qed

theorem split_consumes_first_listed_delimiter_witness:
  "S ''a'' \<in> set [S ''b'', S ''a'', S ''ab''] \<and>
   re_split_from [S ''b'', S ''a'', S ''ab''] False (S ''x'' @ S ''a'' @ S ''by'') =
     S ''x'' # re_split_from [S ''b'', S ''a'', S ''ab''] False (S ''by'') \<and>
   tokenize_input (S ''x'' @ S ''a'' @ S ''by'') (Some [S ''b'', S ''a'', S ''ab'']) False True False =
     [S ''x'', [], S ''y'']"
proof -
  have listed: "S ''a'' \<in> set [S ''b'', S ''a'', S ''ab'']"
    by simp
  have state: "\<not> (False \<and> S ''x'' = [] \<and> S ''a'' = [])"
    by simp
  have leftmost: "\<forall>k<length (S ''x''). \<forall>d'\<in>set [S ''b'', S ''a'', S ''ab''].
      \<not> matches_at (False \<and> k = 0) d' (drop k (S ''x'' @ S ''a'' @ S ''by''))"
    by (simp add: matches_at_def S_def)
  have earlier: "\<forall>d'\<in>set (takeWhile (\<lambda>x. x \<noteq> S ''a'') [S ''b'', S ''a'', S ''ab'']).
      \<not> matches_at (False \<and> S ''x'' = []) d' (S ''a'' @ S ''by'')"
    by (simp add: matches_at_def S_def)
  have rest: "re_split_from [S ''b'', S ''a'', S ''ab''] (S ''a'' = []) (S ''by'') = [[], S ''y'']"
    by (simp add: re_split_from.simps S_def)
  from split_consumes_first_listed_delimiter [OF listed state leftmost earlier, of True False]
    rest listed
  show ?thesis by (simp add: S_def)
qed

text \<open>
  The claim as stated fails where a delimiter is a prefix of a later, longer one: with the
  delimiters \<^verbatim>\<open>a\<close> and \<^verbatim>\<open>ab\<close>, in this order, the text \<^verbatim>\<open>xaby\<close> is cut behind \<^verbatim>\<open>a\<close>, where
  the leftmost-longest rule takes \<^verbatim>\<open>ab\<close>: the tokens are \<^verbatim>\<open>x\<close> and \<^verbatim>\<open>by\<close>.
\<close>

theorem leftmost_longest_counterexample:
  "re_search [S ''a'', S ''ab''] False (S ''xaby'') = Some (S ''x'', S ''a'', S ''by'') \<and>
   leftmost_longest_search [S ''a'', S ''ab''] False (S ''xaby'') =
     Some (S ''x'', S ''ab'', S ''y'') \<and>
   tokenize_input (S ''xaby'') (Some [S ''a'', S ''ab'']) False True False = [S ''x'', S ''by'']"
  by (simp add: tokenize_input_def compile_delimiters_regex_def re_split_from.simps
      matches_at_def S_def)

section \<open>Splitting again what was rejoined\<close>

lemma re_search_Some:
  "re_search ds adv s = Some (u, d, r) \<Longrightarrow> s = u @ d @ r \<and> d \<in> set ds"
proof (induction ds adv s arbitrary: u rule: re_search.induct)
  case (1 ds adv)
  then show ?case
    by (auto simp: first_match_Some_iff matches_at_def split: option.splits)
next
  case (2 ds adv c cs)
  show ?case
  proof (cases "first_match ds adv (c # cs)")
    case (Some d')
    with 2(2) have eq: "u = []" "d = d'" "r = drop (length d') (c # cs)" by auto
    from Some have "prefix d' (c # cs)" "d' \<in> set ds"
      by (auto simp: first_match_Some_iff matches_at_def)
    with eq show ?thesis by (auto simp: prefix_def)
  next
    case None
    with 2(2) obtain u' where u': "re_search ds False cs = Some (u', d, r)" "u = c # u'"
      by (auto split: option.splits)
    from 2(1) [OF None u'(1)] u'(2) show ?thesis by simp
  qed
qed

lemma re_split_from_not_Nil: "re_split_from ds adv s \<noteq> []"
  by (subst re_split_from.simps) (simp split: option.splits)

lemma str_join_Cons: "ps \<noteq> [] \<Longrightarrow> str_join d (p # ps) = p @ d @ str_join d ps"
  by (cases ps) simp_all

lemma str_join_re_split_from:
  "set ds = {d} \<Longrightarrow> str_join d (re_split_from ds adv s) = s"
proof (induction ds adv s rule: re_split_from.induct)
  case (1 ds adv s)
  show ?case
  proof (cases "re_search ds adv s")
    case None
    then show ?thesis by (subst re_split_from.simps) simp
  next
    case (Some m)
    obtain u d' r where m: "m = (u, d', r)" by (cases m)
    from re_search_Some [of ds adv s u d' r] Some m "1.prems"
    have s: "s = u @ d @ r" and d': "d' = d" by auto
    from "1.IH" [OF Some m [symmetric] refl "1.prems"] d'
    have "str_join d (re_split_from ds (d = []) r) = r" by simp
    with Some m s d' show ?thesis
      by (subst re_split_from.simps) (simp add: str_join_Cons re_split_from_not_Nil)
  qed
qed

lemma re_split_from_first:
  assumes "d \<in> set ds"
    and "\<not> (adv \<and> u = [] \<and> d = [])"
    and "\<forall>k<length u. \<forall>d'\<in>set ds. \<not> matches_at (adv \<and> k = 0) d' (drop k (u @ d @ r))"
    and "\<forall>d'\<in>set (takeWhile (\<lambda>x. x \<noteq> d) ds). \<not> matches_at (adv \<and> u = []) d' (d @ r)"
  shows "re_split_from ds adv (u @ d @ r) = u # re_split_from ds (d = []) r"
  using re_search_first [OF assms] by (subst re_split_from.simps) simp

text \<open>A text is free of the one-character delimiters when none of its characters is one.\<close>

lemma re_search_free:
  assumes "\<forall>x\<in>set ds. length x = 1" and "\<forall>c\<in>set s. [c] \<notin> set ds"
  shows "re_search ds adv s = None"
  using assms(2)
proof (induction s arbitrary: adv)
  case Nil
  from assms(1) have "\<forall>x\<in>set ds. \<not> matches_at adv x []"
    by (auto simp: matches_at_def)
  then show ?case by (simp add: first_match_None_iff [symmetric])
next
  case (Cons c cs)
  have "\<forall>x\<in>set ds. \<not> matches_at adv x (c # cs)"
  proof
    fix x assume x: "x \<in> set ds"
    with assms(1) obtain c' where "x = [c']" by (cases x) auto
    with x Cons.prems show "\<not> matches_at adv x (c # cs)"
      by (auto simp: matches_at_def)
  qed
  then have "first_match ds adv (c # cs) = None"
    by (simp add: first_match_None_iff)
  with Cons show ?case by simp
qed

lemma first_match_None_free:
  "first_match ds adv (c # cs) = None \<Longrightarrow> [c] \<notin> set ds"
  by (auto simp: first_match_None_iff matches_at_def)

lemma re_search_Some_free:
  "re_search ds adv s = Some (u, d, r) \<Longrightarrow> \<forall>c\<in>set u. [c] \<notin> set ds"
proof (induction s arbitrary: adv u)
  case Nil
  then show ?case by (auto split: option.splits)
next
  case (Cons c cs)
  show ?case
  proof (cases "first_match ds adv (c # cs)")
    case (Some d')
    with Cons.prems show ?thesis by auto
  next
    case None
    with Cons.prems obtain u' where u': "re_search ds False cs = Some (u', d, r)" "u = c # u'"
      by (auto split: option.splits)
    from Cons.IH [OF u'(1)] first_match_None_free [OF None] u'(2) show ?thesis by simp
  qed
qed

lemma re_search_None_free:
  "re_search ds adv s = None \<Longrightarrow> \<forall>c\<in>set s. [c] \<notin> set ds"
proof (induction s arbitrary: adv)
  case Nil
  show ?case by simp
next
  case (Cons c cs)
  then have none: "first_match ds adv (c # cs) = None" and "re_search ds False cs = None"
    by (auto split: option.splits)
  with Cons.IH [of False] first_match_None_free [OF none] show ?case by simp
qed

lemma re_split_from_free:
  "\<forall>p\<in>set (re_split_from ds adv s). \<forall>c\<in>set p. [c] \<notin> set ds"
proof (induction ds adv s rule: re_split_from.induct)
  case (1 ds adv s)
  show ?case
  proof (cases "re_search ds adv s")
    case None
    from re_search_None_free [OF None] None show ?thesis
      by (subst re_split_from.simps) simp
  next
    case (Some m)
    obtain u d r where m: "m = (u, d, r)" by (cases m)
    from Some m have found: "re_search ds adv s = Some (u, d, r)" by simp
    from "1.IH" [OF Some m [symmetric] refl] re_search_Some_free [OF found] found
    show ?thesis
      by (subst re_split_from.simps) simp
  qed
qed

lemma re_split_from_str_join:
  assumes "\<forall>x\<in>set ds. length x = 1" and "d \<in> set ds"
  shows "ps \<noteq> [] \<Longrightarrow> \<forall>p\<in>set ps. \<forall>c\<in>set p. [c] \<notin> set ds \<Longrightarrow>
     re_split_from ds adv (str_join d ps) = ps"
proof (induction ps arbitrary: adv)
  case Nil
  then show ?case by simp
next
  case (Cons p ps)
  show ?case
  proof (cases "ps = []")
    case True
    from Cons.prems(2) have "re_search ds adv p = None"
      using assms(1) by (intro re_search_free) simp_all
    with True show ?thesis by (subst re_split_from.simps) simp
  next
    case False
    from assms obtain c where d: "d = [c]" by (cases d) auto
    let ?r = "str_join d ps"
    have leftmost: "\<forall>k<length p. \<forall>d'\<in>set ds.
        \<not> matches_at (adv \<and> k = 0) d' (drop k (p @ d @ ?r))"
    proof (intro allI impI ballI)
      fix k d' assume k: "k < length p" and d': "d' \<in> set ds"
      with assms(1) obtain c' where c': "d' = [c']" by (cases d') auto
      from k have "drop k (p @ d @ ?r) = (p ! k) # drop (Suc k) p @ d @ ?r"
        by (simp add: Cons_nth_drop_Suc)
      moreover from k Cons.prems(2) have "[p ! k] \<notin> set ds" by simp
      ultimately show "\<not> matches_at (adv \<and> k = 0) d' (drop k (p @ d @ ?r))"
        using d' c' by (auto simp: matches_at_def)
    qed
    have earlier: "\<forall>d'\<in>set (takeWhile (\<lambda>x. x \<noteq> d) ds).
        \<not> matches_at (adv \<and> p = []) d' (d @ ?r)"
    proof
      fix d' assume "d' \<in> set (takeWhile (\<lambda>x. x \<noteq> d) ds)"
      then have d': "d' \<in> set ds" "d' \<noteq> d" by (auto dest: set_takeWhileD)
      with assms(1) obtain c' where "d' = [c']" by (cases d') auto
      with d' d show "\<not> matches_at (adv \<and> p = []) d' (d @ ?r)"
        by (auto simp: matches_at_def)
    qed
    from d have "\<not> (adv \<and> p = [] \<and> d = [])" by simp
    from re_split_from_first [OF assms(2) this leftmost earlier]
    have "re_split_from ds adv (p @ d @ ?r) = p # re_split_from ds (d = []) ?r" .
    moreover from Cons.IH [OF False, of "d = []"] Cons.prems(2)
    have "re_split_from ds (d = []) ?r = ps" by simp
    ultimately show ?thesis using False by (simp add: str_join_Cons)
  qed
qed

lemma set_str_strip: "set (str_strip s) \<subseteq> set s"
  by (auto simp: str_strip_def dest!: set_dropWhileD)

lemma str_strip_shape:
  "str_strip s = [] \<or> (\<not> isspace (hd (str_strip s)) \<and> \<not> isspace (last (str_strip s)))"
proof (cases "str_strip s = []")
  case True
  then show ?thesis by simp
next
  case False
  define t where "t = dropWhile isspace s"
  define v where "v = dropWhile isspace (rev t)"
  have s: "str_strip s = rev v" by (simp add: str_strip_def t_def v_def)
  with False have v: "v \<noteq> []" by simp
  then have hv: "\<not> isspace (hd v)" unfolding v_def by (rule hd_dropWhile)
  from v have rt: "rev t \<noteq> []" by (auto simp: v_def)
  then have "t \<noteq> []" by simp
  then have ht: "\<not> isspace (hd t)" unfolding t_def by (rule hd_dropWhile)
  have "suffix v (rev t)" unfolding v_def by (rule suffix_dropWhile)
  with v have "last v = last (rev t)"
    by (metis suffixE last_append)
  with rt have "last v = hd t" by (simp add: last_rev)
  with ht hv v show ?thesis by (simp add: s hd_rev last_rev)
qed

lemma dropWhile_self: "xs = [] \<or> \<not> P (hd xs) \<Longrightarrow> dropWhile P xs = xs"
  by (cases xs) auto

lemma str_strip_idem: "str_strip (str_strip s) = str_strip s"
proof -
  let ?v = "str_strip s"
  from str_strip_shape [of s] have front: "dropWhile isspace ?v = ?v"
    by (intro dropWhile_self) auto
  from str_strip_shape [of s] have "dropWhile isspace (rev ?v) = rev ?v"
    by (intro dropWhile_self) (auto simp: hd_rev)
  with front show ?thesis by (simp add: str_strip_def [of "str_strip s"])
qed

text \<open>
  Claim C8, as amended. With \<^verbatim>\<open>keep_empty\<close>, tokenizing a text by the delimiters, rejoining
  the tokens with a delimiter of the list and tokenizing again gives the same tokens
  \<^item> when the list holds a single delimiter and stripping is off: then the rejoined string
    is the text itself;
  \<^item> when every delimiter of the list is a single character, with or without stripping.
\<close>

theorem resplit_of_rejoined_tokens:
  assumes "d \<in> set ds"
    and "(set ds = {d} \<and> \<not> sw) \<or> (\<forall>x\<in>set ds. length x = 1)"
  shows "tokenize_input (str_join d (tokenize_input t (Some ds) False True sw)) (Some ds)
             False True sw =
           tokenize_input t (Some ds) False True sw \<and>
         (set ds = {d} \<and> \<not> sw \<longrightarrow> str_join d (tokenize_input t (Some ds) False True sw) = t)"
proof -
  from assms(1) have ne: "ds \<noteq> []" by auto
  let ?f = "\<lambda>part. if sw then str_strip part else part"
  have tok: "tokenize_input s (Some ds) False True sw = map ?f (re_split_from ds False s)" for s
    using ne by (simp add: tokenize_input_delimiters tokenize_loop_keep)
  from assms(2) show ?thesis
  proof
    assume single: "set ds = {d} \<and> \<not> sw"
    then have "str_join d (tokenize_input t (Some ds) False True sw) = t"
      unfolding tok by (simp add: str_join_re_split_from)
    with single show ?thesis by (cases sw) simp_all
  next
    assume chars: "\<forall>x\<in>set ds. length x = 1"
    let ?tokens = "map ?f (re_split_from ds False t)"
    have "?tokens \<noteq> []" by (simp add: re_split_from_not_Nil)
    moreover have "\<forall>p\<in>set ?tokens. \<forall>c\<in>set p. [c] \<notin> set ds"
      using re_split_from_free [of ds False t] set_str_strip by fastforce
    ultimately have "re_split_from ds False (str_join d ?tokens) = ?tokens"
      using chars assms(1) by (intro re_split_from_str_join)
    moreover have "map ?f ?tokens = ?tokens"
      by (simp add: str_strip_idem)
    ultimately have again: "tokenize_input (str_join d (tokenize_input t (Some ds) False True sw))
        (Some ds) False True sw = tokenize_input t (Some ds) False True sw"
      unfolding tok by simp
    have "str_join d (tokenize_input t (Some ds) False True sw) = t" if "set ds = {d} \<and> \<not> sw"
      using that unfolding tok by (simp add: str_join_re_split_from)
    with again show ?thesis by blast
  qed
qed

theorem resplit_of_rejoined_tokens_witness:
  "tokenize_input (S ''xabyab'') (Some [S ''ab'']) False True False = [S ''x'', S ''y'', []] \<and>
   str_join (S ''ab'') [S ''x'', S ''y'', []] = S ''xabyab'' \<and>
   tokenize_input (str_join (S ''ab'') (tokenize_input (S ''xabyab'') (Some [S ''ab'']) False True
       False)) (Some [S ''ab'']) False True False = [S ''x'', S ''y'', []] \<and>
   tokenize_input (S '' a ,b;; c'') (Some [S '','', S '';'']) False True True =
     [S ''a'', S ''b'', [], S ''c''] \<and>
   str_join (S '';'') [S ''a'', S ''b'', [], S ''c''] = S ''a;b;;c'' \<and>
   tokenize_input (str_join (S '';'') (tokenize_input (S '' a ,b;; c'') (Some [S '','', S '';''])
       False True True)) (Some [S '','', S '';'']) False True True =
     [S ''a'', S ''b'', [], S ''c'']"
proof -
  have one: "S ''ab'' \<in> set [S ''ab'']"
    "(set [S ''ab''] = {S ''ab''} \<and> \<not> False) \<or> (\<forall>x\<in>set [S ''ab'']. length x = 1)"
    by simp_all
  have chars: "S '';'' \<in> set [S '','', S '';'']"
    "(set [S '','', S '';''] = {S '';''} \<and> \<not> True) \<or>
     (\<forall>x\<in>set [S '','', S '';'']. length x = 1)"
    by (simp_all add: S_def)
  have first: "tokenize_input (S ''xabyab'') (Some [S ''ab'']) False True False =
      [S ''x'', S ''y'', []]"
    by (simp add: tokenize_input_def compile_delimiters_regex_def re_split_from.simps S_def)
  have second: "tokenize_input (S '' a ,b;; c'') (Some [S '','', S '';'']) False True True =
      [S ''a'', S ''b'', [], S ''c'']"
    by (simp add: tokenize_input_def compile_delimiters_regex_def re_split_from.simps S_def
        str_strip_def isspace_def)
  have joined: "str_join (S ''ab'') [S ''x'', S ''y'', []] = S ''xabyab''"
      "str_join (S '';'') [S ''a'', S ''b'', [], S ''c''] = S ''a;b;;c''"
    by (simp_all add: S_def)
  from resplit_of_rejoined_tokens [OF one, of "S ''xabyab''"]
    resplit_of_rejoined_tokens [OF chars, of "S '' a ,b;; c''"]
    first second joined
  show ?thesis by simp
qed

text \<open>
  The claim as stated fails where rejoining makes a delimiter start inside a token: with
  the delimiters \<^verbatim>\<open>ab\<close> and \<^verbatim>\<open>b\<close> the text \<^verbatim>\<open>aab\<close> gives the tokens \<^verbatim>\<open>a\<close> and the empty
  string; rejoined with \<^verbatim>\<open>b\<close> they are \<^verbatim>\<open>ab\<close>, which splits into two empty tokens.
\<close>

theorem resplit_counterexample:
  "S ''b'' \<in> set [S ''ab'', S ''b''] \<and>
   tokenize_input (S ''aab'') (Some [S ''ab'', S ''b'']) False True False = [S ''a'', []] \<and>
   str_join (S ''b'') (tokenize_input (S ''aab'') (Some [S ''ab'', S ''b'']) False True False) =
     S ''ab'' \<and>
   tokenize_input (str_join (S ''b'')
       (tokenize_input (S ''aab'') (Some [S ''ab'', S ''b'']) False True False))
     (Some [S ''ab'', S ''b'']) False True False = [[], []] \<and>
   tokenize_input (str_join (S ''b'')
       (tokenize_input (S ''aab'') (Some [S ''ab'', S ''b'']) False True False))
     (Some [S ''ab'', S ''b'']) False True False \<noteq>
   tokenize_input (S ''aab'') (Some [S ''ab'', S ''b'']) False True False"
  by (simp add: tokenize_input_def compile_delimiters_regex_def re_split_from.simps S_def)

end
